theory Spec2Isabelle
  imports Main
begin

section \<open>The objects registry of \<open>lib/browser/objects-registry.js\<close>\<close>

text \<open>
  The registry keeps three tables: \<open>storage\<close> (handle id to object and reference count),
  \<open>owners\<close> (owner key to context id and set of handle ids) and \<open>contexts\<close> (context id
  to the pair of owner keys of a pending process swap). Two collaborators are part of
  the state as well, because the registry reads and writes them: the hidden value
  \<open>atomId\<close> that \<open>v8Util\<close> attaches to an object, and the listeners the registry
  subscribes on a \<open>webContents\<close> event emitter.

  JavaScript numbers are modelled as unbounded naturals and integers (they are exact
  below \<open>2^53\<close>); an object is its identity; a context id is a value of one
  primitive type, so that \<open>===\<close> on context ids and equality of property keys agree.
\<close>

subsection \<open>Values\<close>

type_synonym obj = nat
type_synonym context_id = nat

datatype error = TypeError

text \<open>A \<open>webContents\<close>: its stable \<open>id\<close> and what \<open>getProcessId()\<close> returns now.\<close>

record webContents =
  wc_id :: nat
  wc_processId :: nat

definition getProcessId :: "webContents \<Rightarrow> nat" where
  "getProcessId wc = wc_processId wc"

text \<open>
  What the source passes as first argument of \<open>getOwnerKey\<close>: a \<open>webContents\<close> object
  (in \<open>add\<close> and \<open>remove\<close>) or a number (\<open>webContents.id\<close>, in the process-change
  listener).
\<close>

datatype js_value = WebContents webContents | Number nat

subsection \<open>Template strings\<close>

text \<open>The decimal rendering of a number inside a template string.\<close>

definition digit_char :: "nat \<Rightarrow> char" where
  "digit_char d = ''0123456789'' ! d"

fun show_nat :: "nat \<Rightarrow> string" where
  "show_nat n = (if n < 10 then [digit_char n]
                 else show_nat (n div 10) @ [digit_char (n mod 10)])"

declare show_nat.simps [simp del]

text \<open>
  \<open>getOwnerKey(webContents, processId)\<close>. The second argument is \<open>None\<close> when the call
  omits it; \<open>!processId\<close> holds for \<open>undefined\<close> and for \<open>0\<close>. On a number, the property
  \<open>id\<close> reads \<open>undefined\<close>, which the template renders as the text \<open>undefined\<close>, and the
  call of the missing method \<open>getProcessId\<close> throws a \<open>TypeError\<close>.
\<close>

definition falsy :: "nat option \<Rightarrow> bool" where
  "falsy v = (case v of None \<Rightarrow> True | Some n \<Rightarrow> n = 0)"

definition getOwnerKey :: "js_value \<Rightarrow> nat option \<Rightarrow> error + string" where
  "getOwnerKey webContents processId =
     (if falsy processId then
        (case webContents of
           WebContents wc \<Rightarrow> Inr (show_nat (wc_id wc) @ ''-'' @ show_nat (getProcessId wc))
         | Number n \<Rightarrow> Inl TypeError)
      else
        (case webContents of
           WebContents wc \<Rightarrow> Inr (show_nat (wc_id wc) @ ''-'' @ show_nat (the processId))
         | Number n \<Rightarrow> Inr (''undefined'' @ ''-'' @ show_nat (the processId))))"

subsection \<open>The state\<close>

text \<open>\<open>storage[id] = {count, object}\<close>\<close>

record pointer =
  count :: int
  object :: obj

text \<open>
  \<open>owners[ownerKey] = {contextId, storageSet}\<close>. The \<open>Set\<close> is the list of its
  elements in insertion order, which is the order in which \<open>for ... of\<close> visits them.
\<close>

record owner =
  contextId :: context_id
  storageSet :: "nat list"

text \<open>\<open>contexts[contextId] = {oldOwnerKey, newOwnerKey}\<close>\<close>

record swap_context =
  oldOwnerKey :: string
  newOwnerKey :: string

text \<open>
  A listener closure: the emitter it is subscribed on (\<open>webContents\<close>, of which the
  closure reads only \<open>id\<close>), and the captured \<open>processId\<close>, \<open>ownerKey\<close>, \<open>contextId\<close>.
\<close>

record listener =
  l_webContents :: nat
  l_processId :: nat
  l_ownerKey :: string
  l_contextId :: context_id

record registry =
  nextId :: nat
  storage :: "nat \<rightharpoonup> pointer"
  owners :: "string \<rightharpoonup> owner"
  contexts :: "context_id \<rightharpoonup> swap_context"
  hiddenValues :: "obj \<rightharpoonup> nat"
  renderViewDeleted :: "listener list"
  renderFrameChanged :: "listener list"

text \<open>The constructor, with no hidden value set and no listener subscribed.\<close>

definition constructor :: registry where
  "constructor = \<lparr> nextId = 0, storage = Map.empty, owners = Map.empty,
     contexts = Map.empty, hiddenValues = Map.empty,
     renderViewDeleted = [], renderFrameChanged = [] \<rparr>"

subsection \<open>The \<open>Set\<close> operations and the event emitter\<close>

definition set_has :: "nat list \<Rightarrow> nat \<Rightarrow> bool" where
  "set_has xs x = (x \<in> set xs)"

definition set_add :: "nat list \<Rightarrow> nat \<Rightarrow> nat list" where
  "set_add xs x = (if x \<in> set xs then xs else xs @ [x])"

definition set_delete :: "nat list \<Rightarrow> nat \<Rightarrow> nat list" where
  "set_delete xs x = removeAll x xs"

text \<open>
  \<open>emitter.removeListener(event, listener)\<close> removes the most recently added instance
  of the listener. Closures that captured the same values behave alike, so a listener
  is identified by what it captured.
\<close>

definition removeListener :: "listener \<Rightarrow> listener list \<Rightarrow> listener list" where
  "removeListener l ls = rev (remove1 l (rev ls))"

subsection \<open>The private methods\<close>

definition saveToStorage :: "obj \<Rightarrow> registry \<Rightarrow> nat \<times> registry" where
  "saveToStorage obj s =
     (case hiddenValues s obj of
        Some i \<Rightarrow>
          if i \<noteq> 0 then (i, s)
          else (let i' = nextId s + 1 in
                (i', s\<lparr> nextId := i',
                        storage := (storage s)(i' \<mapsto> \<lparr> count = 0, object = obj \<rparr>),
                        hiddenValues := (hiddenValues s)(obj \<mapsto> i') \<rparr>))
      | None \<Rightarrow>
          (let i' = nextId s + 1 in
           (i', s\<lparr> nextId := i',
                   storage := (storage s)(i' \<mapsto> \<lparr> count = 0, object = obj \<rparr>),
                   hiddenValues := (hiddenValues s)(obj \<mapsto> i') \<rparr>)))"

definition dereference :: "nat \<Rightarrow> registry \<Rightarrow> registry" where
  "dereference i s =
     (case storage s i of
        None \<Rightarrow> s
      | Some p \<Rightarrow>
          if count p - 1 = 0
          then s\<lparr> hiddenValues := (hiddenValues s)(object p := None),
                  storage := (storage s)(i := None) \<rparr>
          else s\<lparr> storage := (storage s)(i \<mapsto> p\<lparr> count := count p - 1 \<rparr>) \<rparr>)"

definition registerDeleteListener ::
  "webContents \<Rightarrow> string \<Rightarrow> context_id \<Rightarrow> registry \<Rightarrow> registry" where
  "registerDeleteListener wc ownerKey cid s =
     s\<lparr> renderViewDeleted := renderViewDeleted s @
          [\<lparr> l_webContents = wc_id wc, l_processId = getProcessId wc,
             l_ownerKey = ownerKey, l_contextId = cid \<rparr>] \<rparr>"

definition registerProcessChangeListener ::
  "webContents \<Rightarrow> string \<Rightarrow> context_id \<Rightarrow> registry \<Rightarrow> registry" where
  "registerProcessChangeListener wc ownerKey cid s =
     s\<lparr> renderFrameChanged := renderFrameChanged s @
          [\<lparr> l_webContents = wc_id wc, l_processId = getProcessId wc,
             l_ownerKey = ownerKey, l_contextId = cid \<rparr>] \<rparr>"

subsection \<open>The public methods\<close>

text \<open>
  \<open>add\<close> returns the id, or the error thrown, together with the state reached: an
  exception does not undo the writes made before it. \<open>resolveOwner\<close> is lines 37 to 66,
  the part of \<open>add\<close> that finds or creates the owner record; it returns the final
  values of the variables \<open>ownerKey\<close> and \<open>owner\<close>.
\<close>

definition resolveOwner ::
  "webContents \<Rightarrow> context_id \<Rightarrow> string \<Rightarrow> registry \<Rightarrow> string \<times> owner \<times> registry" where
  "resolveOwner wc cid ownerKey s =
     (case owners s ownerKey of
        None \<Rightarrow>
          (let owner = \<lparr> contextId = cid, storageSet = [] \<rparr> in
           (ownerKey, owner,
            registerProcessChangeListener wc ownerKey cid
              (registerDeleteListener wc ownerKey cid
                (s\<lparr> owners := (owners s)(ownerKey \<mapsto> owner) \<rparr>))))
      | Some ow \<Rightarrow>
          if contextId ow \<noteq> cid then
            (let (ownerKey', owner, s') =
               (case contexts s (contextId ow) of
                  None \<Rightarrow>
                    (ownerKey, ow\<lparr> contextId := cid \<rparr>,
                     s\<lparr> owners := (owners s)(ownerKey \<mapsto> ow\<lparr> contextId := cid \<rparr>) \<rparr>)
                | Some context \<Rightarrow>
                    if oldOwnerKey context = ownerKey then
                      (newOwnerKey context, \<lparr> contextId = cid, storageSet = [] \<rparr>,
                       s\<lparr> owners := (owners s)(newOwnerKey context \<mapsto>
                                      \<lparr> contextId = cid, storageSet = [] \<rparr>),
                          contexts := (contexts s)(cid := None) \<rparr>)
                    else
                      (ownerKey, ow\<lparr> contextId := cid \<rparr>,
                       s\<lparr> owners := (owners s)(ownerKey \<mapsto> ow\<lparr> contextId := cid \<rparr>) \<rparr>))
             in (ownerKey', owner,
                 registerProcessChangeListener wc ownerKey' cid
                   (registerDeleteListener wc ownerKey' cid s')))
          else (ownerKey, ow, s))"

definition add ::
  "webContents \<Rightarrow> context_id \<Rightarrow> obj \<Rightarrow> registry \<Rightarrow> (error + nat) \<times> registry" where
  "add wc cid obj s =
     (let (i, s1) = saveToStorage obj s in
      case getOwnerKey (WebContents wc) None of
        Inl e \<Rightarrow> (Inl e, s1)
      | Inr ownerKey \<Rightarrow>
          (let (ownerKey', owner, s2) = resolveOwner wc cid ownerKey s1 in
           if \<not> set_has (storageSet owner) i then
             (let s3 = s2\<lparr> owners := (owners s2)(ownerKey' \<mapsto>
                             owner\<lparr> storageSet := set_add (storageSet owner) i \<rparr>) \<rparr>
              in case storage s3 i of
                   None \<Rightarrow> (Inl TypeError, s3)
                 | Some p \<Rightarrow>
                     (Inr i, s3\<lparr> storage := (storage s3)(i \<mapsto> p\<lparr> count := count p + 1 \<rparr>) \<rparr>))
           else (Inr i, s2)))"

definition get :: "nat \<Rightarrow> registry \<Rightarrow> obj option" where
  "get i s = (case storage s i of None \<Rightarrow> None | Some pointer \<Rightarrow> Some (object pointer))"

definition remove ::
  "webContents \<Rightarrow> context_id \<Rightarrow> nat \<Rightarrow> registry \<Rightarrow> error + registry" where
  "remove wc cid i s =
     (case getOwnerKey (WebContents wc) None of
        Inl e \<Rightarrow> Inl e
      | Inr ownerKey \<Rightarrow>
          (case owners s ownerKey of
             None \<Rightarrow> Inr s
           | Some ow \<Rightarrow>
               if contextId ow = cid then
                 Inr (dereference i
                   (s\<lparr> owners := (owners s)(ownerKey \<mapsto>
                         ow\<lparr> storageSet := set_delete (storageSet ow) i \<rparr>) \<rparr>))
               else Inr s))"

definition clear :: "string \<Rightarrow> context_id \<Rightarrow> registry \<Rightarrow> registry" where
  "clear ownerKey cid s =
     (case owners s ownerKey of
        None \<Rightarrow> s
      | Some ow \<Rightarrow>
          if contextId ow \<noteq> cid then s
          else (let s1 = fold dereference (storageSet ow) s in
                s1\<lparr> owners := (owners s1)(ownerKey := None),
                    contexts := (contexts s1)(cid := None) \<rparr>))"

subsection \<open>The listeners and the two notifications\<close>

text \<open>The closure \<open>listener\<close> of \<open>registerDeleteListener\<close>, called with \<open>deletedProcessId\<close>.\<close>

definition deleteListener :: "listener \<Rightarrow> nat \<Rightarrow> registry \<Rightarrow> registry" where
  "deleteListener l deletedProcessId s =
     (if deletedProcessId = l_processId l then
        clear (l_ownerKey l) (l_contextId l)
          (s\<lparr> renderViewDeleted := removeListener l (renderViewDeleted s) \<rparr>)
      else s)"

text \<open>
  The closure \<open>processChangeListener\<close>, called with \<open>oldProcessId\<close> and \<open>newProcessId\<close>.
  It calls \<open>getOwnerKey(webContents.id, newProcessId)\<close>: the first argument is the
  number \<open>webContents.id\<close>, not the \<open>webContents\<close>.
\<close>

definition processChangeListener ::
  "listener \<Rightarrow> nat \<Rightarrow> nat \<Rightarrow> registry \<Rightarrow> error + registry" where
  "processChangeListener l oldProcessId newProcessId s =
     (if oldProcessId = l_processId l then
        (case owners s (l_ownerKey l) of
           None \<Rightarrow> Inr s
         | Some ow \<Rightarrow>
             (case getOwnerKey (Number (l_webContents l)) (Some newProcessId) of
                Inl e \<Rightarrow> Inl e
              | Inr newKey \<Rightarrow>
                  Inr (s\<lparr> contexts := (contexts s)(l_contextId l \<mapsto>
                             \<lparr> oldOwnerKey = l_ownerKey l, newOwnerKey = newKey \<rparr>),
                          renderFrameChanged := removeListener l (renderFrameChanged s) \<rparr>)))
      else Inr s)"

text \<open>
  \<open>webContents.emit\<close> calls the listeners subscribed at the time of the call, in the
  order of their subscription; an exception of a listener ends the call and keeps the
  state reached.
\<close>

definition emit_render_view_deleted :: "nat \<Rightarrow> nat \<Rightarrow> registry \<Rightarrow> registry" where
  "emit_render_view_deleted wcid deletedProcessId s =
     fold (\<lambda>l. deleteListener l deletedProcessId)
       (filter (\<lambda>l. l_webContents l = wcid) (renderViewDeleted s)) s"

fun call_processChangeListeners ::
  "listener list \<Rightarrow> nat \<Rightarrow> nat \<Rightarrow> registry \<Rightarrow> error option \<times> registry" where
  "call_processChangeListeners [] oldProcessId newProcessId s = (None, s)"
| "call_processChangeListeners (l # ls) oldProcessId newProcessId s =
     (case processChangeListener l oldProcessId newProcessId s of
        Inl e \<Rightarrow> (Some e, s)
      | Inr s' \<Rightarrow> call_processChangeListeners ls oldProcessId newProcessId s')"

definition emit_render_frame_changed ::
  "nat \<Rightarrow> nat \<Rightarrow> nat \<Rightarrow> registry \<Rightarrow> error option \<times> registry" where
  "emit_render_frame_changed wcid oldProcessId newProcessId s =
     call_processChangeListeners
       (filter (\<lambda>l. l_webContents l = wcid) (renderFrameChanged s))
       oldProcessId newProcessId s"

subsection \<open>Calls and runs\<close>

text \<open>
  What reaches the registry from outside: the three state-changing public methods and
  the two notifications of a \<open>webContents\<close>. A run executes calls one after the other
  from a state; an exception ends the call that threw, not the run.
\<close>

datatype call =
    Add webContents context_id obj
  | Remove webContents context_id nat
  | Clear string context_id
  | ViewDeleted nat nat
  | FrameChanged nat nat nat

fun exec :: "call \<Rightarrow> registry \<Rightarrow> registry" where
  "exec (Add wc cid x) s = snd (add wc cid x s)"
| "exec (Remove wc cid i) s = (case remove wc cid i s of Inl e \<Rightarrow> s | Inr s' \<Rightarrow> s')"
| "exec (Clear ownerKey cid) s = clear ownerKey cid s"
| "exec (ViewDeleted wcid pid) s = emit_render_view_deleted wcid pid s"
| "exec (FrameChanged wcid oldPid newPid) s = snd (emit_render_frame_changed wcid oldPid newPid s)"

fun run :: "call list \<Rightarrow> registry \<Rightarrow> registry" where
  "run [] s = s"
| "run (c # cs) s = run cs (exec c s)"

text \<open>The ids that the \<open>add\<close> calls of a run returned.\<close>

fun returned :: "call list \<Rightarrow> registry \<Rightarrow> nat list" where
  "returned [] s = []"
| "returned (Add wc cid x # cs) s =
     (case fst (add wc cid x s) of Inl e \<Rightarrow> [] | Inr i \<Rightarrow> [i]) @ returned cs (exec (Add wc cid x) s)"
| "returned (c # cs) s = returned cs (exec c s)"

subsection \<open>Endpoints of the scenarios\<close>

definition E1_at_P1 :: webContents where
  "E1_at_P1 = \<lparr> wc_id = 1, wc_processId = 1 \<rparr>"

definition E1_at_P2 :: webContents where
  "E1_at_P2 = \<lparr> wc_id = 1, wc_processId = 2 \<rparr>"

definition E2_at_P3 :: webContents where
  "E2_at_P3 = \<lparr> wc_id = 2, wc_processId = 3 \<rparr>"

definition E3_at_P4 :: webContents where
  "E3_at_P4 = \<lparr> wc_id = 3, wc_processId = 4 \<rparr>"

subsection \<open>The branch of \<open>add\<close> that confirms a swap\<close>

text \<open>
  The condition of lines 46 to 52 under which \<open>add\<close> takes its first reconciliation
  branch: a record exists under the owner key of \<open>webContents\<close>, its context id differs
  from the one supplied, and \<open>contexts\<close> has, for the record's context id, an entry whose
  \<open>oldOwnerKey\<close> is that owner key.
\<close>

definition confirmsSwap :: "webContents \<Rightarrow> context_id \<Rightarrow> registry \<Rightarrow> bool" where
  "confirmsSwap wc cid s =
     (case getOwnerKey (WebContents wc) None of
        Inl e \<Rightarrow> False
      | Inr ownerKey \<Rightarrow>
          (case owners s ownerKey of
             None \<Rightarrow> False
           | Some ow \<Rightarrow>
               contextId ow \<noteq> cid \<and>
               (case contexts s (contextId ow) of
                  None \<Rightarrow> False
                | Some context \<Rightarrow> oldOwnerKey context = ownerKey)))"

subsection \<open>Invariants\<close>

text \<open>
  The hidden values and \<open>storage\<close> agree: an object carries the id \<open>i\<close> exactly when
  \<open>storage\<close> has, under \<open>i\<close>, an entry for that object, and every id in use lies between
  1 and \<open>nextId\<close>.
\<close>

definition tags_ok :: "registry \<Rightarrow> bool" where
  "tags_ok s \<longleftrightarrow>
     (\<forall>x i. hiddenValues s x = Some i \<longrightarrow>
        i \<le> nextId s \<and> (\<exists>p. storage s i = Some p \<and> object p = x))
     \<and> (\<forall>i p. storage s i = Some p \<longrightarrow>
        0 < i \<and> i \<le> nextId s \<and> hiddenValues s (object p) = Some i)"

subsection \<open>Reference counts and owners\<close>

text \<open>
  The owner keys whose record has the id in its set, and the statement about every id:
  when \<open>storage\<close> has an entry for it, the count of the entry is the number of these
  owner records, and when it has none, no owner record holds the id.
\<close>

definition holders :: "registry \<Rightarrow> nat \<Rightarrow> string set" where
  "holders s i = {k. \<exists>ow. owners s k = Some ow \<and> i \<in> set (storageSet ow)}"

definition refcount_inv :: "registry \<Rightarrow> bool" where
  "refcount_inv s \<longleftrightarrow>
     (\<forall>i. case storage s i of
            None \<Rightarrow> holders s i = {}
          | Some p \<Rightarrow> count p = int (card (holders s i)))"

text \<open>
  A run of \<open>add\<close>, \<open>remove\<close> and \<open>clear\<close> calls in which every \<open>remove\<close> that passes
  the owner and context check names an id of that owner's set or an id without entry
  in \<open>storage\<close>.
\<close>

fun disciplined :: "call list \<Rightarrow> registry \<Rightarrow> bool" where
  "disciplined [] s = True"
| "disciplined (Add wc cid x # cs) s = disciplined cs (exec (Add wc cid x) s)"
| "disciplined (Remove wc cid i # cs) s =
     ((case getOwnerKey (WebContents wc) None of
         Inl e \<Rightarrow> True
       | Inr ownerKey \<Rightarrow>
           (case owners s ownerKey of
              None \<Rightarrow> True
            | Some ow \<Rightarrow>
                contextId ow = cid \<longrightarrow> i \<in> set (storageSet ow) \<or> storage s i = None))
      \<and> disciplined cs (exec (Remove wc cid i) s))"
| "disciplined (Clear ownerKey cid # cs) s = disciplined cs (exec (Clear ownerKey cid) s)"
| "disciplined (ViewDeleted wcid pid # cs) s = False"
| "disciplined (FrameChanged wcid oldPid newPid # cs) s = False"

text \<open>The count of an id, 0 when it has no entry, and the invariant of such runs.\<close>

definition refs :: "registry \<Rightarrow> nat \<Rightarrow> int" where
  "refs s i = (case storage s i of None \<Rightarrow> 0 | Some p \<Rightarrow> count p)"

definition registry_inv :: "registry \<Rightarrow> bool" where
  "registry_inv s \<longleftrightarrow>
     contexts s = Map.empty
     \<and> finite (dom (owners s))
     \<and> (\<forall>k ow. owners s k = Some ow \<longrightarrow> distinct (storageSet ow))
     \<and> tags_ok s
     \<and> (\<forall>i p. storage s i = Some p \<longrightarrow> 1 \<le> count p)
     \<and> (\<forall>i. refs s i = int (card (holders s i)))"

section \<open>Properties\<close>

subsection \<open>Owner keys\<close>

lemma getOwnerKey_webContents [simp]:
  "getOwnerKey (WebContents wc) None =
     Inr (show_nat (wc_id wc) @ ''-'' @ show_nat (wc_processId wc))"
  by (simp add: getOwnerKey_def falsy_def getProcessId_def)

lemma digit_char_inj: "a < 10 \<Longrightarrow> b < 10 \<Longrightarrow> digit_char a = digit_char b \<Longrightarrow> a = b"
  unfolding digit_char_def
  by (rule iffD1[OF nth_eq_iff_index_eq]) simp_all

lemma show_nat_nonempty [simp]: "show_nat n \<noteq> []" "[] \<noteq> show_nat n"
  by (subst show_nat.simps, simp)+

text \<open>Different numbers have different decimal renderings.\<close>

lemma show_nat_inj: "show_nat n = show_nat m \<Longrightarrow> n = m"
proof (induction n arbitrary: m rule: show_nat.induct)
  case (1 n)
  show ?case
  proof (cases "n < 10")
    case small: True
    show ?thesis
    proof (cases "m < 10")
      case True
      with small "1.prems" show ?thesis
        by (simp add: show_nat.simps[of n] show_nat.simps[of m] digit_char_inj)
    next
      case False
      with small "1.prems" show ?thesis
        by (simp add: show_nat.simps[of n] show_nat.simps[of m])
    qed
  next
    case big: False
    show ?thesis
    proof (cases "m < 10")
      case True
      with big "1.prems" show ?thesis
        by (simp add: show_nat.simps[of n] show_nat.simps[of m])
    next
      case False
      with big "1.prems" have "show_nat (n div 10) = show_nat (m div 10)"
        and "digit_char (n mod 10) = digit_char (m mod 10)"
        by (simp_all add: show_nat.simps[of n] show_nat.simps[of m])
      with "1.IH"[OF big] have "n div 10 = m div 10" and "n mod 10 = m mod 10"
        by (auto intro: digit_char_inj)
      then show ?thesis by (metis div_mult_mod_eq)
    qed
  qed
qed

lemma show_nat_eq_iff [simp]: "show_nat n = show_nat m \<longleftrightarrow> n = m"
  using show_nat_inj by blast

lemma show_nat_digits [simp]:
  "show_nat (Suc 0) = ''1''" "show_nat 2 = ''2''" "show_nat 3 = ''3''" "show_nat 4 = ''4''"
  by (simp_all add: show_nat.simps digit_char_def)

text \<open>The definitions a concrete scenario is evaluated with.\<close>

lemmas registry_defs =
  add_def resolveOwner_def saveToStorage_def remove_def clear_def dereference_def get_def
  registerDeleteListener_def registerProcessChangeListener_def
  deleteListener_def processChangeListener_def
  emit_render_view_deleted_def emit_render_frame_changed_def removeListener_def
  getOwnerKey_def falsy_def getProcessId_def set_has_def set_add_def set_delete_def
  constructor_def E1_at_P1_def E1_at_P2_def E2_at_P3_def E3_at_P4_def Let_def

subsection \<open>The gate of \<open>remove\<close>\<close>

text \<open>
  C8. \<open>remove(webContents, contextId, id)\<close> goes on only when \<open>owners\<close> has a record
  under the owner key of \<open>webContents\<close> and the context id stored in it equals
  \<open>contextId\<close>; it then deletes the id from the owner's set and dereferences it. In
  every other case the call throws nothing and returns the registry as it was: no
  count, no owner record, no table entry has changed.
\<close>

theorem remove_gated:
  assumes "getOwnerKey (WebContents wc) None = Inr ownerKey"
  shows "((\<nexists>ow. owners s ownerKey = Some ow \<and> contextId ow = cid)
            \<longrightarrow> remove wc cid i s = Inr s)
         \<and> (\<forall>ow. owners s ownerKey = Some ow \<and> contextId ow = cid \<longrightarrow>
               remove wc cid i s =
                 Inr (dereference i
                   (s\<lparr> owners := (owners s)(ownerKey \<mapsto>
                          ow\<lparr> storageSet := set_delete (storageSet ow) i \<rparr>) \<rparr>)))"
  using assms by (auto simp: remove_def split: option.splits)

theorem remove_gated_witness:
  "getOwnerKey (WebContents E1_at_P1) None = Inr ''1-1''
   \<and> (\<nexists>ow. owners (snd (add E1_at_P1 10 100 constructor)) ''1-1'' = Some ow
             \<and> contextId ow = 11)
   \<and> remove E1_at_P1 11 1 (snd (add E1_at_P1 10 100 constructor))
       = Inr (snd (add E1_at_P1 10 100 constructor))"
proof -
  have k: "getOwnerKey (WebContents E1_at_P1) None = Inr ''1-1''"
    by (simp add: E1_at_P1_def)
  have g: "\<nexists>ow. owners (snd (add E1_at_P1 10 100 constructor)) ''1-1'' = Some ow
             \<and> contextId ow = 11"
    by (simp add: registry_defs)
  from remove_gated [OF k, of "snd (add E1_at_P1 10 100 constructor)" 11 1] g k
  show ?thesis by blast
qed

subsection \<open>\<open>dereference\<close> and \<open>remove\<close>\<close>

lemma dereference_frame [simp]:
  "owners (dereference i s) = owners s"
  "contexts (dereference i s) = contexts s"
  "nextId (dereference i s) = nextId s"
  "renderViewDeleted (dereference i s) = renderViewDeleted s"
  "renderFrameChanged (dereference i s) = renderFrameChanged s"
  by (simp_all add: dereference_def split: option.splits)

lemma dereference_absent: "storage s i = None \<Longrightarrow> dereference i s = s"
  by (simp add: dereference_def)

lemma dereference_storage:
  "storage (dereference i s) j =
     (if j = i then (case storage s i of None \<Rightarrow> None
                     | Some p \<Rightarrow> if count p - 1 = 0 then None else Some (p\<lparr> count := count p - 1 \<rparr>))
      else storage s j)"
  by (simp add: dereference_def split: option.splits)

lemma dereference_hiddenValues:
  "hiddenValues (dereference i s) x =
     (case storage s i of None \<Rightarrow> hiddenValues s x
      | Some p \<Rightarrow> if count p - 1 = 0 \<and> x = object p then None else hiddenValues s x)"
  by (simp add: dereference_def split: option.splits)

lemma remove_unfold:
  "getOwnerKey (WebContents wc) None = Inr k \<Longrightarrow>
   remove wc cid i s =
     (case owners s k of
        None \<Rightarrow> Inr s
      | Some ow \<Rightarrow>
          if contextId ow = cid then
            Inr (dereference i
              (s\<lparr> owners := (owners s)(k \<mapsto> ow\<lparr> storageSet := set_delete (storageSet ow) i \<rparr>) \<rparr>))
          else Inr s)"
  by (simp add: remove_def)

lemma remove_Inr: "remove wc cid i s = Inr (exec (Remove wc cid i) s)"
  by (simp add: remove_def split: option.splits)

text \<open>
  C10. Whenever the owner record of the endpoint exists and its context id equals the
  one supplied, \<open>remove\<close> dereferences the id in \<open>storage\<close>: the count goes down by one,
  and at zero the entry and the object's hidden value are deleted. Nothing is asked
  of \<open>storageSet\<close>: the statement holds for every id with an entry, member of the
  owner's set or not (the witness removes an id that only another owner holds).
\<close>

theorem remove_ignores_membership:
  assumes "getOwnerKey (WebContents wc) None = Inr ownerKey"
    and "owners s ownerKey = Some ow" and "contextId ow = cid"
    and "storage s i = Some p"
  shows "\<exists>s'. remove wc cid i s = Inr s'
           \<and> storage s' i = (if count p - 1 = 0 then None else Some (p\<lparr> count := count p - 1 \<rparr>))
           \<and> (count p - 1 = 0 \<longrightarrow> hiddenValues s' (object p) = None)
           \<and> (\<forall>j. j \<noteq> i \<longrightarrow> storage s' j = storage s j)
           \<and> owners s' = (owners s)(ownerKey \<mapsto> ow\<lparr> storageSet := set_delete (storageSet ow) i \<rparr>)"
  using assms by (auto simp: remove_def dereference_storage dereference_hiddenValues)

theorem remove_ignores_membership_witness:
  "getOwnerKey (WebContents E2_at_P3) None = Inr ''2-3''
   \<and> owners (run [Add E1_at_P1 10 100, Add E2_at_P3 20 200] constructor) ''2-3''
       = Some \<lparr> contextId = 20, storageSet = [2] \<rparr>
   \<and> 1 \<notin> set (storageSet \<lparr> contextId = 20, storageSet = [2] \<rparr>)
   \<and> storage (run [Add E1_at_P1 10 100, Add E2_at_P3 20 200] constructor) 1
       = Some \<lparr> count = 1, object = 100 \<rparr>
   \<and> (\<exists>s'. remove E2_at_P3 20 1 (run [Add E1_at_P1 10 100, Add E2_at_P3 20 200] constructor) = Inr s'
         \<and> storage s' 1 = None \<and> hiddenValues s' 100 = None)"
proof -
  let ?s = "run [Add E1_at_P1 10 100, Add E2_at_P3 20 200] constructor"
  have k: "getOwnerKey (WebContents E2_at_P3) None = Inr ''2-3''"
    by (simp add: E2_at_P3_def)
  have o: "owners ?s ''2-3'' = Some \<lparr> contextId = 20, storageSet = [2] \<rparr>"
    by (simp add: registry_defs)
  have c: "contextId \<lparr> contextId = 20, storageSet = [2] \<rparr> = 20" by simp
  have p: "storage ?s 1 = Some \<lparr> count = 1, object = 100 \<rparr>"
    by (simp add: registry_defs)
  from remove_ignores_membership [OF k o c p] k o p show ?thesis
    by auto
qed

text \<open>
  C9. \<open>dereference\<close> of an id that has no entry returns the registry as it was, so it
  throws nothing and touches no other id. In the scenario: when \<open>add\<close> returned the id
  \<open>h\<close> and a first \<open>remove\<close> with the same endpoint and context id left no entry
  for \<open>h\<close> (its count went to zero), a second \<open>remove\<close> throws nothing, returns the
  registry unchanged, and \<open>get(h)\<close> finds nothing.
\<close>

theorem double_release:
  "(storage s i = None \<longrightarrow> dereference i s = s)
   \<and> (fst (add wc cid x s) = Inr h
        \<and> remove wc cid h (snd (add wc cid x s)) = Inr s2
        \<and> storage s2 h = None
      \<longrightarrow> remove wc cid h s2 = Inr s2 \<and> get h s2 = None)"
proof (intro conjI impI)
  show "storage s i = None \<Longrightarrow> dereference i s = s" by (rule dereference_absent)
next
  assume a: "fst (add wc cid x s) = Inr h
        \<and> remove wc cid h (snd (add wc cid x s)) = Inr s2
        \<and> storage s2 h = None"
  define s1 where "s1 = snd (add wc cid x s)"
  obtain k where k: "getOwnerKey (WebContents wc) None = Inr k" by simp
  from a have r: "remove wc cid h s1 = Inr s2" and n: "storage s2 h = None"
    by (simp_all add: s1_def)
  show "remove wc cid h s2 = Inr s2"
  proof (cases "\<exists>ow. owners s1 k = Some ow \<and> contextId ow = cid")
    case False
    with r have "s2 = s1" by (auto simp: remove_unfold[OF k] split: option.splits)
    with r show ?thesis by simp
  next
    case True
    then obtain ow where ow: "owners s1 k = Some ow" "contextId ow = cid" by blast
    with r have s2: "s2 = dereference h
        (s1\<lparr> owners := (owners s1)(k \<mapsto> ow\<lparr> storageSet := set_delete (storageSet ow) h \<rparr>) \<rparr>)"
      by (simp add: remove_unfold[OF k])
    have o2: "owners s2 k = Some (ow\<lparr> storageSet := set_delete (storageSet ow) h \<rparr>)"
      by (simp add: s2)
    have same: "(owners s2)(k \<mapsto> ow\<lparr> storageSet := set_delete (storageSet ow) h \<rparr>) = owners s2"
      using o2 by (simp add: map_upd_triv)
    show ?thesis
      using o2 ow n same
      by (simp add: remove_unfold[OF k] set_delete_def dereference_absent)
  qed
  from n show "get h s2 = None" by (simp add: get_def)
qed

theorem double_release_witness:
  "storage constructor 1 = None \<and> dereference 1 constructor = constructor
   \<and> fst (add E1_at_P1 10 100 constructor) = Inr 1
   \<and> remove E1_at_P1 10 1 (snd (add E1_at_P1 10 100 constructor))
       = Inr (run [Add E1_at_P1 10 100, Remove E1_at_P1 10 1] constructor)
   \<and> storage (run [Add E1_at_P1 10 100, Remove E1_at_P1 10 1] constructor) 1 = None
   \<and> remove E1_at_P1 10 1 (run [Add E1_at_P1 10 100, Remove E1_at_P1 10 1] constructor)
       = Inr (run [Add E1_at_P1 10 100, Remove E1_at_P1 10 1] constructor)
   \<and> get 1 (run [Add E1_at_P1 10 100, Remove E1_at_P1 10 1] constructor) = None"
proof -
  let ?s2 = "run [Add E1_at_P1 10 100, Remove E1_at_P1 10 1] constructor"
  have a: "storage constructor 1 = None" by (simp add: constructor_def)
  have b: "fst (add E1_at_P1 10 100 constructor) = Inr 1"
    by (simp add: registry_defs)
  have c: "remove E1_at_P1 10 1 (snd (add E1_at_P1 10 100 constructor)) = Inr ?s2"
    unfolding run.simps exec.simps(1) by (rule remove_Inr)
  have d: "storage ?s2 1 = None"
    by (simp add: registry_defs)
  from double_release [of constructor 1 E1_at_P1 10 100 1 ?s2] a b c d
  show ?thesis by blast
qed

subsection \<open>Repeated \<open>add\<close>\<close>

lemma saveToStorage_frame [simp]:
  "owners (snd (saveToStorage x s)) = owners s"
  "contexts (snd (saveToStorage x s)) = contexts s"
  "renderViewDeleted (snd (saveToStorage x s)) = renderViewDeleted s"
  "renderFrameChanged (snd (saveToStorage x s)) = renderFrameChanged s"
  by (simp_all add: saveToStorage_def Let_def split: option.splits)

lemma saveToStorage_tagged:
  "saveToStorage x s = (i, s1) \<Longrightarrow> hiddenValues s1 x = Some i \<and> i \<noteq> 0"
  by (auto simp: saveToStorage_def Let_def split: option.splits if_splits)

lemma saveToStorage_again:
  "hiddenValues s x = Some i \<Longrightarrow> i \<noteq> 0 \<Longrightarrow> saveToStorage x s = (i, s)"
  by (simp add: saveToStorage_def)

text \<open>
  Outside the branch that confirms a swap, a repeated call changes nothing: when the
  first \<open>add(webContents, contextId, obj)\<close> does not take that branch and returns the
  id \<open>h\<close>, the same call made again returns \<open>h\<close> and leaves the whole registry, the
  count of \<open>h\<close> included, as the first call left it.
\<close>

theorem add_idempotent:
  assumes "\<not> confirmsSwap wc cid s" and "add wc cid x s = (Inr h, s1)"
  shows "add wc cid x s1 = (Inr h, s1)"
proof -
  obtain i s0 where sv: "saveToStorage x s = (i, s0)" by (cases "saveToStorage x s")
  obtain k where k: "getOwnerKey (WebContents wc) None = Inr k" by simp
  obtain k' ow' s2 where rs: "resolveOwner wc cid k s0 = (k', ow', s2)"
    by (cases "resolveOwner wc cid k s0") auto
  have own0: "owners s0 = owners s" "contexts s0 = contexts s"
    using sv saveToStorage_frame[of x s] by simp_all
  have tag0: "hiddenValues s0 x = Some i" "i \<noteq> 0"
    using saveToStorage_tagged[OF sv] by simp_all
  have res: "k' = k \<and> contextId ow' = cid \<and> owners s2 k = Some ow'
             \<and> hiddenValues s2 = hiddenValues s0 \<and> storage s2 = storage s0"
    using rs assms(1) k own0
    by (auto simp: resolveOwner_def confirmsSwap_def registerDeleteListener_def
          registerProcessChangeListener_def Let_def split: option.splits if_splits)
  from assms(2) sv k rs have hi: "h = i"
    by (auto simp: add_def Let_def split: if_splits option.splits)
  from assms(2) sv k rs res tag0
  have s1: "hiddenValues s1 x = Some i \<and> (\<exists>ow1. owners s1 k = Some ow1 \<and> contextId ow1 = cid
              \<and> i \<in> set (storageSet ow1))"
    by (auto simp: add_def Let_def set_has_def set_add_def split: if_splits option.splits)
  then obtain ow1 where ow1: "owners s1 k = Some ow1" "contextId ow1 = cid" "i \<in> set (storageSet ow1)"
    by blast
  have sv1: "saveToStorage x s1 = (i, s1)"
    using s1 tag0 by (simp add: saveToStorage_again)
  have rs1: "resolveOwner wc cid k s1 = (k, ow1, s1)"
    using ow1 by (simp add: resolveOwner_def)
  show ?thesis
    using sv1 rs1 ow1 k hi by (simp add: add_def set_has_def)
qed

theorem add_idempotent_witness:
  "\<not> confirmsSwap E1_at_P1 10 constructor
   \<and> add E1_at_P1 10 100 constructor = (Inr 1, run [Add E1_at_P1 10 100] constructor)
   \<and> add E1_at_P1 10 100 (run [Add E1_at_P1 10 100] constructor)
       = (Inr 1, run [Add E1_at_P1 10 100] constructor)"
proof -
  have a: "\<not> confirmsSwap E1_at_P1 10 constructor"
    by (simp add: confirmsSwap_def constructor_def)
  have "fst (add E1_at_P1 10 100 constructor) = Inr 1"
    by (simp add: registry_defs)
  then have b: "add E1_at_P1 10 100 constructor = (Inr 1, run [Add E1_at_P1 10 100] constructor)"
    by (simp add: prod_eq_iff)
  from add_idempotent [OF a b] a b show ?thesis by blast
qed

text \<open>
  C5, evaluated. After \<open>add\<close> of object 100 by endpoint 1 at process 1 under context 10
  and the swap notification from process 1 to 2, the endpoint calls \<open>add\<close> of the same
  object under context 11 twice. Both calls return the id 1. The first takes the
  branch that confirms the swap and leaves the entry of \<open>contexts\<close> under context 10
  in place, so the second takes the same branch again, creates the record under the
  new owner key afresh and counts the id once more: the count of id 1 is 2 after the
  first call and 3 after the second.
\<close>

theorem add_twice_evaluated:
  "fst (add E1_at_P1 11 100 (run [Add E1_at_P1 10 100, FrameChanged 1 1 2] constructor)) = Inr 1
   \<and> storage (run [Add E1_at_P1 10 100, FrameChanged 1 1 2, Add E1_at_P1 11 100] constructor) 1
       = Some \<lparr> count = 2, object = 100 \<rparr>
   \<and> contexts (run [Add E1_at_P1 10 100, FrameChanged 1 1 2, Add E1_at_P1 11 100] constructor) 10
       = Some \<lparr> oldOwnerKey = ''1-1'', newOwnerKey = ''undefined-2'' \<rparr>
   \<and> fst (add E1_at_P1 11 100
        (run [Add E1_at_P1 10 100, FrameChanged 1 1 2, Add E1_at_P1 11 100] constructor)) = Inr 1
   \<and> storage (run [Add E1_at_P1 10 100, FrameChanged 1 1 2, Add E1_at_P1 11 100,
                   Add E1_at_P1 11 100] constructor) 1
       = Some \<lparr> count = 3, object = 100 \<rparr>"
  by (simp add: registry_defs)

subsection \<open>\<open>clear\<close>\<close>

lemma fold_dereference_frame [simp]:
  "owners (fold dereference is s) = owners s"
  "contexts (fold dereference is s) = contexts s"
  "nextId (fold dereference is s) = nextId s"
  "renderViewDeleted (fold dereference is s) = renderViewDeleted s"
  "renderFrameChanged (fold dereference is s) = renderFrameChanged s"
  by (induction "is" arbitrary: s; simp)+

lemma fold_dereference_other:
  "j \<notin> set is \<Longrightarrow> storage (fold dereference is s) j = storage s j"
  by (induction "is" arbitrary: s) (auto simp: dereference_storage)

lemma dereference_None:
  "storage s j = None \<Longrightarrow> storage (dereference a s) j = None"
  by (cases "j = a") (simp_all add: dereference_storage)

lemma fold_dereference_None:
  "storage s j = None \<Longrightarrow> storage (fold dereference is s) j = None"
  by (induction "is" arbitrary: s) (simp_all add: dereference_None)

lemma fold_dereference_once:
  "distinct is \<Longrightarrow> j \<in> set is \<Longrightarrow>
   storage (fold dereference is s) j = storage (dereference j s) j"
proof (induction "is" arbitrary: s)
  case Nil
  then show ?case by simp
next
  case (Cons a "is")
  show ?case
  proof (cases "j = a")
    case True
    with Cons.prems have "j \<notin> set is" by simp
    then show ?thesis using True by (simp add: fold_dereference_other)
  next
    case False
    with Cons.prems have "j \<in> set is" "distinct is" by simp_all
    then have "storage (fold dereference is (dereference a s)) j
               = storage (dereference j (dereference a s)) j"
      by (rule Cons.IH[rotated])
    with False show ?thesis by (simp add: dereference_storage)
  qed
qed

lemma dereference_hidden_None:
  "hiddenValues s x = None \<Longrightarrow> hiddenValues (dereference a s) x = None"
  by (simp add: dereference_hiddenValues split: option.splits)

lemma fold_dereference_hidden_None:
  "hiddenValues s x = None \<Longrightarrow> hiddenValues (fold dereference is s) x = None"
  by (induction "is" arbitrary: s) (simp_all add: dereference_hidden_None)

lemma fold_dereference_last:
  "j \<in> set is \<Longrightarrow> storage s j = Some p \<Longrightarrow> count p = 1 \<Longrightarrow>
   storage (fold dereference is s) j = None \<and> hiddenValues (fold dereference is s) (object p) = None"
proof (induction "is" arbitrary: s)
  case Nil
  then show ?case by simp
next
  case (Cons a "is")
  show ?case
  proof (cases "j = a")
    case True
    with Cons.prems have "storage (dereference a s) j = None"
      and "hiddenValues (dereference a s) (object p) = None"
      by (simp_all add: dereference_storage dereference_hiddenValues)
    then show ?thesis by (simp add: fold_dereference_None fold_dereference_hidden_None)
  next
    case False
    with Cons.prems have "j \<in> set is" and "storage (dereference a s) j = Some p"
      by (simp_all add: dereference_storage)
    from Cons.IH[OF this Cons.prems(3)] show ?thesis by simp
  qed
qed

text \<open>
  What \<open>clear\<close> does, in every state. \<open>clear(ownerKey, contextId)\<close> returns the
  registry unchanged when there is no record under \<open>ownerKey\<close> or its context id differs. On a match it
  deletes the owner record and the entry of \<open>contexts\<close> under \<open>contextId\<close>, and each
  id of the owner's set is dereferenced exactly once: its entry afterwards is what one
  \<open>dereference\<close> makes of it, and the entries of all other ids are untouched. Hence
  every id of the set whose count was 1 is gone afterwards: \<open>get\<close> finds nothing and
  the object's hidden value is cleared.
\<close>

theorem clear_effect:
  "((owners s k = None \<or> (\<exists>ow. owners s k = Some ow \<and> contextId ow \<noteq> cid))
      \<longrightarrow> clear k cid s = s)
   \<and> (owners s k = Some ow \<and> contextId ow = cid \<longrightarrow>
        owners (clear k cid s) = (owners s)(k := None)
        \<and> contexts (clear k cid s) = (contexts s)(cid := None)
        \<and> (distinct (storageSet ow) \<longrightarrow>
             (\<forall>i. storage (clear k cid s) i =
                  (if i \<in> set (storageSet ow) then storage (dereference i s) i else storage s i)))
        \<and> (\<forall>i p. i \<in> set (storageSet ow) \<and> storage s i = Some p \<and> count p = 1
              \<longrightarrow> get i (clear k cid s) = None
                  \<and> hiddenValues (clear k cid s) (object p) = None))"
proof (intro conjI impI allI)
  assume "owners s k = None \<or> (\<exists>ow. owners s k = Some ow \<and> contextId ow \<noteq> cid)"
  then show "clear k cid s = s" by (auto simp: clear_def)
next
  assume m: "owners s k = Some ow \<and> contextId ow = cid"
  then show "owners (clear k cid s) = (owners s)(k := None)"
    and "contexts (clear k cid s) = (contexts s)(cid := None)"
    by (simp_all add: clear_def Let_def)
  {
    fix i
    assume "distinct (storageSet ow)"
    with m show "storage (clear k cid s) i =
        (if i \<in> set (storageSet ow) then storage (dereference i s) i else storage s i)"
      by (simp add: clear_def Let_def fold_dereference_once fold_dereference_other)
  }
  {
    fix i p
    assume "i \<in> set (storageSet ow) \<and> storage s i = Some p \<and> count p = 1"
    with m fold_dereference_last[of i "storageSet ow" s p]
    show "get i (clear k cid s) = None" and "hiddenValues (clear k cid s) (object p) = None"
      by (simp_all add: clear_def Let_def get_def)
  }
qed

theorem clear_effect_witness:
  "owners constructor ''1-1'' = None
   \<and> clear ''1-1'' 10 constructor = constructor
   \<and> owners (run [Add E1_at_P1 10 100, Add E1_at_P1 10 200, Add E2_at_P3 20 200] constructor) ''1-1''
       = Some \<lparr> contextId = 10, storageSet = [1, 2] \<rparr>
   \<and> distinct [1, 2 :: nat]
   \<and> storage (run [Add E1_at_P1 10 100, Add E1_at_P1 10 200, Add E2_at_P3 20 200] constructor) 1
       = Some \<lparr> count = 1, object = 100 \<rparr>
   \<and> get 1 (clear ''1-1'' 10
        (run [Add E1_at_P1 10 100, Add E1_at_P1 10 200, Add E2_at_P3 20 200] constructor)) = None
   \<and> storage (clear ''1-1'' 10
        (run [Add E1_at_P1 10 100, Add E1_at_P1 10 200, Add E2_at_P3 20 200] constructor)) 2
       = Some \<lparr> count = 1, object = 200 \<rparr>"
proof -
  let ?s = "run [Add E1_at_P1 10 100, Add E1_at_P1 10 200, Add E2_at_P3 20 200] constructor"
  let ?ow = "\<lparr> contextId = 10, storageSet = [1, 2] \<rparr>"
  have a: "owners constructor ''1-1'' = None" by (simp add: constructor_def)
  have o: "owners ?s ''1-1'' = Some ?ow" by (simp add: registry_defs)
  have p: "storage ?s 1 = Some \<lparr> count = 1, object = 100 \<rparr>" by (simp add: registry_defs)
  have q: "storage (dereference 2 ?s) 2 = Some \<lparr> count = 1, object = 200 \<rparr>"
    by (simp add: registry_defs)
  have a': "owners constructor ''1-1'' = None
              \<or> (\<exists>ow. owners constructor ''1-1'' = Some ow \<and> contextId ow \<noteq> 10)"
    using a by simp
  have m: "owners ?s ''1-1'' = Some ?ow \<and> contextId ?ow = 10" using o by simp
  have d: "distinct (storageSet ?ow)" by simp
  have i1: "1 \<in> set (storageSet ?ow) \<and> storage ?s 1 = Some \<lparr> count = 1, object = 100 \<rparr>
              \<and> count \<lparr> count = 1, object = 100 \<rparr> = 1"
    using p by simp
  note noop = clear_effect [where s = constructor and k = "''1-1''" and cid = 10,
      THEN conjunct1, THEN mp, OF a']
  note match = clear_effect [where s = "?s" and k = "''1-1''" and ow = "?ow" and cid = 10,
      THEN conjunct2, THEN mp, OF m]
  note once = match [THEN conjunct2, THEN conjunct2, THEN conjunct1, THEN mp, OF d,
      THEN spec, of 2]
  note gone = match [THEN conjunct2, THEN conjunct2, THEN conjunct2, THEN spec, THEN spec,
      THEN mp, OF i1, THEN conjunct1]
  from once q have 5: "storage (clear ''1-1'' 10 ?s) 2 = Some \<lparr> count = 1, object = 200 \<rparr>"
    by simp
  from a noop o gone 5 p show ?thesis by simp
qed

text \<open>
  C7, evaluated. After the swap notification, two equal calls \<open>add\<close> of object 200
  under context 11 both take the branch that confirms the swap, because the first
  leaves the entry of \<open>contexts\<close> under context 10 in place; each creates the record
  under the new owner key afresh and each counts the id 2. The registry then has the
  two records shown, id 2 is in the set of the second only and its count is 2.
  \<open>clear\<close> of that owner dereferences the id once, and \<open>get(2)\<close> still returns the
  object.
\<close>

theorem clear_exclusive_evaluated:
  "storage (run [Add E1_at_P1 10 100, FrameChanged 1 1 2, Add E1_at_P1 11 200,
                Add E1_at_P1 11 200] constructor) 2 = Some \<lparr> count = 2, object = 200 \<rparr>
   \<and> owners (run [Add E1_at_P1 10 100, FrameChanged 1 1 2, Add E1_at_P1 11 200,
                Add E1_at_P1 11 200] constructor) ''undefined-2''
     = Some \<lparr> contextId = 11, storageSet = [2] \<rparr>
   \<and> owners (run [Add E1_at_P1 10 100, FrameChanged 1 1 2, Add E1_at_P1 11 200,
                Add E1_at_P1 11 200] constructor) ''1-1''
     = Some \<lparr> contextId = 10, storageSet = [1] \<rparr>
   \<and> dom (owners (run [Add E1_at_P1 10 100, FrameChanged 1 1 2, Add E1_at_P1 11 200,
                Add E1_at_P1 11 200] constructor)) = {''undefined-2'', ''1-1''}
   \<and> get 2 (clear ''undefined-2'' 11
        (run [Add E1_at_P1 10 100, FrameChanged 1 1 2, Add E1_at_P1 11 200,
              Add E1_at_P1 11 200] constructor)) = Some 200"
  by (simp add: registry_defs)

subsection \<open>Hidden values and \<open>storage\<close> along a run\<close>

lemma tags_ok_constructor: "tags_ok constructor"
  by (simp add: tags_ok_def constructor_def)

lemma tags_ok_hidden:
  "tags_ok s \<Longrightarrow> hiddenValues s x = Some i \<Longrightarrow>
   i \<le> nextId s \<and> (\<exists>p. storage s i = Some p \<and> object p = x)"
  unfolding tags_ok_def by blast

lemma tags_ok_storage:
  "tags_ok s \<Longrightarrow> storage s i = Some p \<Longrightarrow>
   0 < i \<and> i \<le> nextId s \<and> hiddenValues s (object p) = Some i"
  unfolding tags_ok_def by blast

lemma tags_ok_frame:
  "nextId s' = nextId s \<Longrightarrow> storage s' = storage s \<Longrightarrow> hiddenValues s' = hiddenValues s
   \<Longrightarrow> tags_ok s' = tags_ok s"
  by (simp add: tags_ok_def)

lemma saveToStorage_cases:
  "(\<exists>i. hiddenValues s x = Some i \<and> i \<noteq> 0 \<and> saveToStorage x s = (i, s))
   \<or> ((hiddenValues s x = None \<or> hiddenValues s x = Some 0)
       \<and> saveToStorage x s = (nextId s + 1,
            s\<lparr> nextId := nextId s + 1,
               storage := (storage s)(nextId s + 1 \<mapsto> \<lparr> count = 0, object = x \<rparr>),
               hiddenValues := (hiddenValues s)(x \<mapsto> nextId s + 1) \<rparr>))"
  by (auto simp: saveToStorage_def Let_def split: option.splits)

lemma tags_ok_saveToStorage:
  assumes "tags_ok s" shows "tags_ok (snd (saveToStorage x s))"
proof -
  let ?s' = "s\<lparr> nextId := nextId s + 1,
               storage := (storage s)(nextId s + 1 \<mapsto> \<lparr> count = 0, object = x \<rparr>),
               hiddenValues := (hiddenValues s)(x \<mapsto> nextId s + 1) \<rparr>"
  from saveToStorage_cases[of s x] consider
    (old) i where "saveToStorage x s = (i, s)"
  | (new) "hiddenValues s x = None \<or> hiddenValues s x = Some 0"
      "saveToStorage x s = (nextId s + 1, ?s')"
    by blast
  then show ?thesis
  proof cases
    case old
    with assms show ?thesis by simp
  next
    case new
    note f = new(1) and eq = new(2)
  let ?i = "nextId s + 1"
  let ?new = "\<lparr> count = 0, object = x \<rparr>"
  have noent: "object p \<noteq> x" if "storage s i = Some p" for i p
  proof
    assume "object p = x"
    with tags_ok_storage[OF assms that] have "0 < i" "hiddenValues s x = Some i" by simp_all
    with f show False by auto
  qed
  have A: "i \<le> ?i \<and> (\<exists>p. ((storage s)(?i \<mapsto> ?new)) i = Some p \<and> object p = y)"
    if h: "((hiddenValues s)(x \<mapsto> ?i)) y = Some i" for y i
  proof (cases "y = x")
    case True
    with h show ?thesis by simp
  next
    case False
    with h have "hiddenValues s y = Some i" by simp
    from tags_ok_hidden[OF assms this] show ?thesis by auto
  qed
  have B: "0 < i \<and> i \<le> ?i \<and> ((hiddenValues s)(x \<mapsto> ?i)) (object p) = Some i"
    if h: "((storage s)(?i \<mapsto> ?new)) i = Some p" for i p
  proof (cases "i = ?i")
    case True
    with h show ?thesis by auto
  next
    case False
    with h have e: "storage s i = Some p" by simp
    from tags_ok_storage[OF assms e] noent[OF e] show ?thesis by simp
  qed
  show ?thesis
    unfolding eq tags_ok_def using A B by simp
  qed
qed

lemma tags_ok_count:
  assumes "tags_ok s" and "storage s i = Some p"
  shows "tags_ok (s\<lparr> storage := (storage s)(i \<mapsto> p\<lparr> count := c \<rparr>) \<rparr>)"
proof -
  have A: "j \<le> nextId s \<and> (\<exists>q. ((storage s)(i \<mapsto> p\<lparr> count := c \<rparr>)) j = Some q \<and> object q = y)"
    if "hiddenValues s y = Some j" for y j
    using tags_ok_hidden[OF assms(1) that] assms(2) by (cases "j = i") auto
  have B: "0 < j \<and> j \<le> nextId s \<and> hiddenValues s (object q) = Some j"
    if "((storage s)(i \<mapsto> p\<lparr> count := c \<rparr>)) j = Some q" for j q
  proof (cases "j = i")
    case True
    with that tags_ok_storage[OF assms] show ?thesis by auto
  next
    case False
    with that tags_ok_storage[OF assms(1), of j q] show ?thesis by simp
  qed
  show ?thesis unfolding tags_ok_def using A B by simp
qed

lemma tags_ok_delete:
  assumes "tags_ok s" and "storage s i = Some p"
  shows "tags_ok (s\<lparr> hiddenValues := (hiddenValues s)(object p := None),
                     storage := (storage s)(i := None) \<rparr>)"
proof -
  have A: "j \<le> nextId s \<and> (\<exists>q. ((storage s)(i := None)) j = Some q \<and> object q = y)"
    if h: "((hiddenValues s)(object p := None)) y = Some j" for y j
  proof -
    from h have ne: "y \<noteq> object p" and hv: "hiddenValues s y = Some j"
      by (auto split: if_splits)
    from tags_ok_hidden[OF assms(1) hv] obtain q where
      q: "j \<le> nextId s" "storage s j = Some q" "object q = y" by blast
    with ne assms(2) have "j \<noteq> i" by auto
    with q show ?thesis by simp
  qed
  have B: "0 < j \<and> j \<le> nextId s \<and> ((hiddenValues s)(object p := None)) (object q) = Some j"
    if h: "((storage s)(i := None)) j = Some q" for j q
  proof -
    from h have ne: "j \<noteq> i" and e: "storage s j = Some q" by (auto split: if_splits)
    from tags_ok_storage[OF assms(1) e] have t: "0 < j" "j \<le> nextId s" "hiddenValues s (object q) = Some j"
      by simp_all
    from tags_ok_storage[OF assms] have "hiddenValues s (object p) = Some i" by simp
    with t ne have "object q \<noteq> object p" by auto
    with t show ?thesis by simp
  qed
  show ?thesis unfolding tags_ok_def using A B by simp
qed

lemma tags_ok_dereference: "tags_ok s \<Longrightarrow> tags_ok (dereference i s)"
  by (cases "storage s i") (simp_all add: dereference_def tags_ok_count tags_ok_delete)

lemma tags_ok_fold_dereference: "tags_ok s \<Longrightarrow> tags_ok (fold dereference is s)"
  by (induction "is" arbitrary: s) (simp_all add: tags_ok_dereference)

lemma resolveOwner_frame:
  assumes "resolveOwner wc cid k s = (k', ow, s')"
  shows "nextId s' = nextId s" "storage s' = storage s" "hiddenValues s' = hiddenValues s"
  using assms
  by (auto simp: resolveOwner_def registerDeleteListener_def registerProcessChangeListener_def
        Let_def split: option.splits if_splits)

lemma add_unfold:
  assumes "saveToStorage x s = (i, s1)"
    and "getOwnerKey (WebContents wc) None = Inr k"
    and "resolveOwner wc cid k s1 = (k', ow, s2)"
  shows "add wc cid x s =
     (if i \<in> set (storageSet ow) then (Inr i, s2)
      else (case storage s2 i of
              None \<Rightarrow> (Inl TypeError,
                        s2\<lparr> owners := (owners s2)(k' \<mapsto> ow\<lparr> storageSet := set_add (storageSet ow) i \<rparr>) \<rparr>)
            | Some p \<Rightarrow> (Inr i,
                        s2\<lparr> owners := (owners s2)(k' \<mapsto> ow\<lparr> storageSet := set_add (storageSet ow) i \<rparr>),
                            storage := (storage s2)(i \<mapsto> p\<lparr> count := count p + 1 \<rparr>) \<rparr>)))"
  using assms by (simp add: add_def set_has_def Let_def split: option.splits)

lemma saveToStorage_present:
  assumes "saveToStorage x s = (i, s1)" and "tags_ok s"
  shows "\<exists>p. storage s1 i = Some p \<and> object p = x" and "i \<le> nextId s1"
proof -
  from saveToStorage_cases[of s x] consider
    (old) j where "hiddenValues s x = Some j" "saveToStorage x s = (j, s)"
  | (new) "saveToStorage x s = (nextId s + 1,
            s\<lparr> nextId := nextId s + 1,
               storage := (storage s)(nextId s + 1 \<mapsto> \<lparr> count = 0, object = x \<rparr>),
               hiddenValues := (hiddenValues s)(x \<mapsto> nextId s + 1) \<rparr>)"
    by blast
  then have "(\<exists>p. storage s1 i = Some p \<and> object p = x) \<and> i \<le> nextId s1"
  proof cases
    case old
    with assms(1) have "j = i" "s1 = s" by simp_all
    with tags_ok_hidden[OF assms(2) old(1)] show ?thesis by simp
  next
    case new
    with assms(1) show ?thesis by auto
  qed
  then show "\<exists>p. storage s1 i = Some p \<and> object p = x" and "i \<le> nextId s1" by blast+
qed

lemma tags_ok_add:
  assumes "tags_ok s" shows "tags_ok (snd (add wc cid x s))"
proof -
  obtain i s1 where sv: "saveToStorage x s = (i, s1)" by (cases "saveToStorage x s")
  obtain k where k: "getOwnerKey (WebContents wc) None = Inr k" by simp
  obtain k' ow s2 where rs: "resolveOwner wc cid k s1 = (k', ow, s2)"
    by (cases "resolveOwner wc cid k s1") auto
  from tags_ok_saveToStorage[OF assms, of x] sv have t1: "tags_ok s1" by simp
  with tags_ok_frame[OF resolveOwner_frame[OF rs]] have t2: "tags_ok s2" by simp
  from saveToStorage_present(1)[OF sv assms] resolveOwner_frame(2)[OF rs]
  obtain p where p: "storage s2 i = Some p" by auto
  let ?s3 = "s2\<lparr> owners := (owners s2)(k' \<mapsto> ow\<lparr> storageSet := set_add (storageSet ow) i \<rparr>) \<rparr>"
  have t3: "tags_ok ?s3" using t2 by (simp add: tags_ok_def)
  have p3: "storage ?s3 i = Some p" using p by simp
  from tags_ok_count[OF t3 p3, of "count p + 1"]
  have "tags_ok (s2\<lparr> owners := (owners s2)(k' \<mapsto> ow\<lparr> storageSet := set_add (storageSet ow) i \<rparr>),
                     storage := (storage s2)(i \<mapsto> p\<lparr> count := count p + 1 \<rparr>) \<rparr>)"
    by simp
  with t2 p show ?thesis by (simp add: add_unfold[OF sv k rs])
qed

lemma nextId_saveToStorage: "nextId s \<le> nextId (snd (saveToStorage x s))"
  using saveToStorage_cases[of s x] by auto

lemma nextId_add: "nextId (snd (add wc cid x s)) = nextId (snd (saveToStorage x s))"
proof -
  obtain i s1 where sv: "saveToStorage x s = (i, s1)" by (cases "saveToStorage x s")
  obtain k where k: "getOwnerKey (WebContents wc) None = Inr k" by simp
  obtain k' ow s2 where rs: "resolveOwner wc cid k s1 = (k', ow, s2)"
    by (cases "resolveOwner wc cid k s1") auto
  show ?thesis
    using resolveOwner_frame(1)[OF rs] sv
    by (simp add: add_unfold[OF sv k rs] split: option.splits)
qed

lemma add_returned_bounded:
  assumes "tags_ok s" and "fst (add wc cid x s) = Inr i"
  shows "i \<le> nextId (snd (add wc cid x s))"
proof -
  obtain j s1 where sv: "saveToStorage x s = (j, s1)" by (cases "saveToStorage x s")
  obtain k where k: "getOwnerKey (WebContents wc) None = Inr k" by simp
  obtain k' ow s2 where rs: "resolveOwner wc cid k s1 = (k', ow, s2)"
    by (cases "resolveOwner wc cid k s1") auto
  from assms(2) have "i = j"
    by (simp add: add_unfold[OF sv k rs] split: if_splits option.splits)
  moreover from saveToStorage_present(2)[OF sv assms(1)] have "j \<le> nextId s1" .
  ultimately show ?thesis using sv by (simp add: nextId_add)
qed

lemma add_fresh:
  assumes "hiddenValues s x = None"
  shows "\<exists>s'. add wc cid x s = (Inr (nextId s + 1), s')"
proof -
  let ?i = "nextId s + 1"
  from saveToStorage_cases[of s x] assms obtain s1 where
    sv: "saveToStorage x s = (?i, s1)" and st: "storage s1 ?i \<noteq> None"
    by auto
  obtain k where k: "getOwnerKey (WebContents wc) None = Inr k" by simp
  obtain k' ow s2 where rs: "resolveOwner wc cid k s1 = (k', ow, s2)"
    by (cases "resolveOwner wc cid k s1") auto
  from st resolveOwner_frame(2)[OF rs] obtain p where "storage s2 ?i = Some p" by auto
  then show ?thesis by (simp add: add_unfold[OF sv k rs])
qed

lemma clear_frame [simp]: "nextId (clear k cid s) = nextId s"
  by (simp add: clear_def Let_def split: option.splits)

lemma tags_ok_clear:
  assumes "tags_ok s" shows "tags_ok (clear k cid s)"
proof (cases "\<exists>ow. owners s k = Some ow \<and> contextId ow = cid")
  case False
  then have "clear k cid s = s" by (auto simp: clear_def split: option.splits)
  with assms show ?thesis by simp
next
  case True
  then obtain ow where ow: "owners s k = Some ow" "contextId ow = cid" by blast
  let ?s1 = "fold dereference (storageSet ow) s"
  have c: "clear k cid s = ?s1\<lparr> owners := (owners ?s1)(k := None),
                                   contexts := (contexts ?s1)(cid := None) \<rparr>"
    using ow by (simp add: clear_def Let_def)
  have "tags_ok (clear k cid s) = tags_ok ?s1"
    unfolding c by (rule tags_ok_frame) simp_all
  with tags_ok_fold_dereference[OF assms] show ?thesis by simp
qed

lemma deleteListener_inv:
  "tags_ok s \<Longrightarrow> tags_ok (deleteListener l pid s)"
  "nextId (deleteListener l pid s) = nextId s"
proof -
  have f: "tags_ok (s\<lparr> renderViewDeleted := ls \<rparr>) = tags_ok s" for ls
    by (simp add: tags_ok_def)
  show "tags_ok s \<Longrightarrow> tags_ok (deleteListener l pid s)"
    by (simp add: deleteListener_def tags_ok_clear f)
  show "nextId (deleteListener l pid s) = nextId s"
    by (simp add: deleteListener_def)
qed

lemma fold_deleteListener_inv:
  "tags_ok s \<Longrightarrow> tags_ok (fold (\<lambda>l. deleteListener l pid) ls s)"
  "nextId (fold (\<lambda>l. deleteListener l pid) ls s) = nextId s"
  by (induction ls arbitrary: s) (simp_all add: deleteListener_inv)

lemma processChangeListener_inv:
  assumes "processChangeListener l old new s = Inr s'"
  shows "tags_ok s' = tags_ok s" "nextId s' = nextId s"
  using assms
  by (auto simp: processChangeListener_def tags_ok_def split: if_splits option.splits sum.splits)

lemma call_processChangeListeners_inv:
  "tags_ok (snd (call_processChangeListeners ls old new s)) = tags_ok s
   \<and> nextId (snd (call_processChangeListeners ls old new s)) = nextId s"
proof (induction ls arbitrary: s)
  case Nil
  show ?case by simp
next
  case (Cons l ls)
  show ?case
  proof (cases "processChangeListener l old new s")
    case (Inl e)
    then show ?thesis by simp
  next
    case (Inr s')
    with Cons[of s'] processChangeListener_inv[OF Inr] show ?thesis by simp
  qed
qed

lemma call_processChangeListeners_tags:
  "tags_ok (snd (call_processChangeListeners ls old new s)) = tags_ok s"
  using call_processChangeListeners_inv by blast

lemma call_processChangeListeners_nextId:
  "nextId (snd (call_processChangeListeners ls old new s)) = nextId s"
  using call_processChangeListeners_inv by blast

lemma tags_ok_exec: "tags_ok s \<Longrightarrow> tags_ok (exec c s)"
proof (cases c)
  case (Add wc cid x)
  assume "tags_ok s"
  with Add show ?thesis by (simp add: tags_ok_add)
next
  case (Remove wc cid i)
  assume t: "tags_ok s"
  have "tags_ok (s\<lparr> owners := m \<rparr>)" for m using t by (simp add: tags_ok_def)
  with t Remove show ?thesis
    by (auto simp: remove_def tags_ok_dereference split: option.splits)
next
  case (Clear k cid)
  assume "tags_ok s"
  with Clear show ?thesis by (simp add: tags_ok_clear)
next
  case (ViewDeleted wcid pid)
  assume "tags_ok s"
  with ViewDeleted show ?thesis
    by (simp add: emit_render_view_deleted_def fold_deleteListener_inv)
next
  case (FrameChanged wcid old new)
  assume "tags_ok s"
  with FrameChanged show ?thesis
    by (simp add: emit_render_frame_changed_def call_processChangeListeners_tags)
qed

lemma nextId_exec: "nextId s \<le> nextId (exec c s)"
proof (cases c)
  case (Add wc cid x)
  then show ?thesis by (simp add: nextId_add nextId_saveToStorage)
next
  case (Remove wc cid i)
  then show ?thesis by (auto simp: remove_def split: option.splits)
next
  case (Clear k cid)
  then show ?thesis by simp
next
  case (ViewDeleted wcid pid)
  then show ?thesis
    by (simp add: emit_render_view_deleted_def fold_deleteListener_inv)
next
  case (FrameChanged wcid old new)
  then show ?thesis
    by (simp add: emit_render_frame_changed_def call_processChangeListeners_nextId)
qed

lemma tags_ok_run: "tags_ok s \<Longrightarrow> tags_ok (run cs s)"
  by (induction cs arbitrary: s) (simp_all add: tags_ok_exec)

lemma nextId_run: "nextId s \<le> nextId (run cs s)"
proof (induction cs arbitrary: s)
  case Nil
  show ?case by simp
next
  case (Cons c cs)
  from nextId_exec[of s c] Cons[of "exec c s"] show ?case by simp
qed

lemma returned_bounded:
  "tags_ok s \<Longrightarrow> r \<in> set (returned cs s) \<Longrightarrow> r \<le> nextId (run cs s)"
proof (induction cs arbitrary: s)
  case Nil
  then show ?case by simp
next
  case (Cons c cs)
  have t: "tags_ok (exec c s)" using Cons.prems(1) by (rule tags_ok_exec)
  show ?case
  proof (cases "r \<in> set (returned cs (exec c s))")
    case True
    from Cons.IH[OF t True] show ?thesis by simp
  next
    case False
    with Cons.prems(2) obtain wc cid x where c: "c = Add wc cid x" and r: "fst (add wc cid x s) = Inr r"
      by (cases c) (auto split: sum.splits)
    from add_returned_bounded[OF Cons.prems(1) r] have "r \<le> nextId (exec c s)" by (simp add: c)
    with nextId_run[of "exec c s" cs] show ?thesis by simp
  qed
qed

lemma hidden_dereference:
  "hiddenValues (dereference i s) x = Some j \<Longrightarrow> hiddenValues s x = Some j"
  by (simp add: dereference_hiddenValues split: option.splits if_splits)

lemma hidden_fold_dereference:
  "hiddenValues (fold dereference is s) x = Some j \<Longrightarrow> hiddenValues s x = Some j"
  by (induction "is" arbitrary: s) (auto dest: hidden_dereference)

lemma hidden_clear:
  "hiddenValues (clear k cid s) x = Some j \<Longrightarrow> hiddenValues s x = Some j"
  by (auto simp: clear_def Let_def split: option.splits if_splits dest: hidden_fold_dereference)

lemma hidden_deleteListener:
  "hiddenValues (deleteListener l pid s) x = Some j \<Longrightarrow> hiddenValues s x = Some j"
  by (auto simp: deleteListener_def split: if_splits dest: hidden_clear)

lemma hidden_fold_deleteListener:
  "hiddenValues (fold (\<lambda>l. deleteListener l pid) ls s) x = Some j \<Longrightarrow> hiddenValues s x = Some j"
  by (induction ls arbitrary: s) (auto dest: hidden_deleteListener)

lemma hidden_processChangeListener:
  "processChangeListener l old new s = Inr s' \<Longrightarrow> hiddenValues s' = hiddenValues s"
  by (auto simp: processChangeListener_def split: if_splits option.splits sum.splits)

lemma hidden_call_processChangeListeners:
  "hiddenValues (snd (call_processChangeListeners ls old new s)) = hiddenValues s"
proof (induction ls arbitrary: s)
  case Nil
  show ?case by simp
next
  case (Cons l ls)
  show ?case
  proof (cases "processChangeListener l old new s")
    case (Inl e)
    then show ?thesis by simp
  next
    case (Inr s')
    with Cons[of s'] hidden_processChangeListener[OF Inr] show ?thesis by simp
  qed
qed

lemma hidden_exec:
  assumes "hiddenValues (exec c s) x = Some j" and "\<forall>wc cid y. c \<noteq> Add wc cid y"
  shows "hiddenValues s x = Some j"
proof (cases c)
  case (Add wc cid y)
  with assms(2) show ?thesis by simp
next
  case (Remove wc cid i)
  with assms(1) show ?thesis
    by (auto simp: remove_def split: option.splits if_splits dest: hidden_dereference)
next
  case (Clear k cid)
  with assms(1) show ?thesis by (auto dest: hidden_clear)
next
  case (ViewDeleted wcid pid)
  with assms(1) show ?thesis
    by (auto simp: emit_render_view_deleted_def dest: hidden_fold_deleteListener)
next
  case (FrameChanged wcid old new)
  with assms(1) show ?thesis
    by (simp add: emit_render_frame_changed_def hidden_call_processChangeListeners)
qed

lemma add_keeps_entries:
  assumes "storage s i = Some p"
  shows "storage (snd (add wc cid x s)) i \<noteq> None"
proof -
  obtain j s1 where sv: "saveToStorage x s = (j, s1)" by (cases "saveToStorage x s")
  obtain k where k: "getOwnerKey (WebContents wc) None = Inr k" by simp
  obtain k' ow s2 where rs: "resolveOwner wc cid k s1 = (k', ow, s2)"
    by (cases "resolveOwner wc cid k s1") auto
  from saveToStorage_cases[of s x] sv assms have "storage s1 i \<noteq> None" by auto
  with resolveOwner_frame(2)[OF rs] have "storage s2 i \<noteq> None" by simp
  then show ?thesis
    by (simp add: add_unfold[OF sv k rs] split: option.splits)
qed

lemma released_clears_tag:
  assumes "tags_ok s" and "storage s i = Some p" and "storage (exec c s) i = None"
  shows "hiddenValues (exec c s) (object p) = None"
proof (rule ccontr)
  assume "hiddenValues (exec c s) (object p) \<noteq> None"
  then obtain j where j: "hiddenValues (exec c s) (object p) = Some j" by blast
  have noadd: "\<forall>wc cid y. c \<noteq> Add wc cid y"
  proof (intro allI notI)
    fix wc cid y assume "c = Add wc cid y"
    with assms(3) have "storage (snd (add wc cid y s)) i = None" by simp
    with add_keeps_entries[OF assms(2), of wc cid y] show False by simp
  qed
  from hidden_exec[OF j noadd] tags_ok_storage[OF assms(1,2)] have "j = i" by simp
  with tags_ok_hidden[OF tags_ok_exec[OF assms(1)] j] assms(3) show False by simp
qed

text \<open>
  C6. When \<open>dereference\<close> takes the count of an id to zero, the same call deletes the
  entry and the object's hidden value, and \<open>get\<close> of the id finds nothing afterwards.
  In every state a run of calls reaches from the new registry, \<open>add\<close> of an object
  without hidden value returns an id strictly greater than every id the \<open>add\<close> calls
  of the run returned. Together, for a run and a next call that frees the entry of an
  id: after that call \<open>get\<close> finds nothing, the object has no hidden value, and \<open>add\<close>
  of that object returns an id strictly greater than the freed one and than every id
  returned before.
\<close>

theorem released_then_fresh:
  "(storage s i = Some p \<and> count p - 1 = 0 \<longrightarrow>
      storage (dereference i s) i = None
      \<and> hiddenValues (dereference i s) (object p) = None
      \<and> get i (dereference i s) = None)
   \<and> (hiddenValues (run cs constructor) x = None \<longrightarrow>
        (\<exists>j s'. add wc cid x (run cs constructor) = (Inr j, s')
           \<and> (\<forall>r \<in> set (returned cs constructor). r < j)))
   \<and> (storage (run cs constructor) i' = Some p' \<and> storage (exec c (run cs constructor)) i' = None \<longrightarrow>
        get i' (exec c (run cs constructor)) = None
        \<and> hiddenValues (exec c (run cs constructor)) (object p') = None
        \<and> (\<exists>j s'. add wc cid (object p') (exec c (run cs constructor)) = (Inr j, s')
              \<and> i' < j \<and> (\<forall>r \<in> set (returned cs constructor). r < j)))"
proof (intro conjI impI)
  assume "storage s i = Some p \<and> count p - 1 = 0"
  then show "storage (dereference i s) i = None"
    and "hiddenValues (dereference i s) (object p) = None"
    and "get i (dereference i s) = None"
    by (simp_all add: dereference_storage dereference_hiddenValues get_def)
next
  assume h: "hiddenValues (run cs constructor) x = None"
  from add_fresh[OF h] obtain s' where
    a: "add wc cid x (run cs constructor) = (Inr (nextId (run cs constructor) + 1), s')"
    by blast
  have "\<forall>r \<in> set (returned cs constructor). r < nextId (run cs constructor) + 1"
    using returned_bounded[OF tags_ok_constructor] by (auto simp: less_Suc_eq_le)
  with a show "\<exists>j s'. add wc cid x (run cs constructor) = (Inr j, s')
           \<and> (\<forall>r \<in> set (returned cs constructor). r < j)"
    by blast
next
  let ?s = "run cs constructor"
  assume a: "storage ?s i' = Some p' \<and> storage (exec c ?s) i' = None"
  have t: "tags_ok ?s" by (rule tags_ok_run[OF tags_ok_constructor])
  from a show "get i' (exec c ?s) = None" by (simp add: get_def)
  from a released_clears_tag[OF t] show h: "hiddenValues (exec c ?s) (object p') = None"
    by blast
  from add_fresh[OF h] obtain s' where
    ad: "add wc cid (object p') (exec c ?s) = (Inr (nextId (exec c ?s) + 1), s')"
    by blast
  have le: "nextId ?s \<le> nextId (exec c ?s)" by (rule nextId_exec)
  from a tags_ok_storage[OF t] have "i' \<le> nextId ?s" by blast
  with le have 1: "i' < nextId (exec c ?s) + 1" by simp
  have 2: "\<forall>r \<in> set (returned cs constructor). r < nextId (exec c ?s) + 1"
  proof
    fix r assume "r \<in> set (returned cs constructor)"
    from returned_bounded[OF tags_ok_constructor this] le
    show "r < nextId (exec c ?s) + 1" by simp
  qed
  from ad 1 2 show "\<exists>j s'. add wc cid (object p') (exec c ?s) = (Inr j, s')
              \<and> i' < j \<and> (\<forall>r \<in> set (returned cs constructor). r < j)"
    by blast
qed

theorem released_then_fresh_witness:
  "storage (run [Add E1_at_P1 10 100] constructor) 1 = Some \<lparr> count = 1, object = 100 \<rparr>
   \<and> count \<lparr> count = 1, object = 100 \<rparr> - 1 = 0
   \<and> get 1 (dereference 1 (run [Add E1_at_P1 10 100] constructor)) = None
   \<and> hiddenValues (run [Add E1_at_P1 10 100, Remove E1_at_P1 10 1] constructor) 100 = None
   \<and> storage (exec (Remove E1_at_P1 10 1) (run [Add E1_at_P1 10 100] constructor)) 1 = None
   \<and> returned [Add E1_at_P1 10 100, Remove E1_at_P1 10 1] constructor = [1]
   \<and> (\<exists>j s'. add E2_at_P3 20 100 (run [Add E1_at_P1 10 100, Remove E1_at_P1 10 1] constructor)
                 = (Inr j, s')
         \<and> (\<forall>r \<in> set (returned [Add E1_at_P1 10 100, Remove E1_at_P1 10 1] constructor). r < j))
   \<and> (\<exists>j s'. add E2_at_P3 20 100 (exec (Remove E1_at_P1 10 1) (run [Add E1_at_P1 10 100] constructor))
                 = (Inr j, s')
         \<and> 1 < j)"
proof -
  let ?s = "run [Add E1_at_P1 10 100] constructor"
  let ?cs = "[Add E1_at_P1 10 100, Remove E1_at_P1 10 1]"
  let ?p = "\<lparr> count = 1, object = 100 \<rparr>"
  have a: "storage ?s 1 = Some ?p" by (simp add: registry_defs)
  have b: "count ?p - 1 = 0" by simp
  have c: "hiddenValues (run ?cs constructor) 100 = None" by (simp add: registry_defs)
  have d: "storage (exec (Remove E1_at_P1 10 1) ?s) 1 = None" by (simp add: registry_defs)
  have e: "returned ?cs constructor = [1]" by (simp add: registry_defs)
  note t = released_then_fresh [where s = "?s" and i = 1 and p = "?p" and cs = "?cs" and x = 100
      and wc = E2_at_P3 and cid = 20]
  note t' = released_then_fresh [where cs = "[Add E1_at_P1 10 100]" and i' = 1 and p' = "?p"
      and c = "Remove E1_at_P1 10 1" and wc = E2_at_P3 and cid = 20]
  from t a b have 1: "get 1 (dereference 1 ?s) = None" by blast
  from t c have 2: "\<exists>j s'. add E2_at_P3 20 100 (run ?cs constructor) = (Inr j, s')
         \<and> (\<forall>r \<in> set (returned ?cs constructor). r < j)" by blast
  from t' a d have 3: "\<exists>j s'. add E2_at_P3 20 (object ?p) (exec (Remove E1_at_P1 10 1) ?s) = (Inr j, s')
         \<and> 1 < j" by blast
  from a b 1 c d e 2 3 show ?thesis by simp
qed

subsection \<open>Counts and owner records\<close>

lemma holders_mem: "k \<in> holders s j \<longleftrightarrow> (\<exists>ow. owners s k = Some ow \<and> j \<in> set (storageSet ow))"
  by (simp add: holders_def)

lemma holders_owners_upd:
  "owners s' = (owners s)(k \<mapsto> ow) \<Longrightarrow>
   holders s' j = (if j \<in> set (storageSet ow) then insert k (holders s j) else holders s j - {k})"
  by (auto simp: holders_def)

lemma holders_owners_del:
  "owners s' = (owners s)(k := None) \<Longrightarrow> holders s' j = holders s j - {k}"
  by (auto simp: holders_def)

lemma finite_holders: "finite (dom (owners s)) \<Longrightarrow> finite (holders s j)"
  by (rule finite_subset[of _ "dom (owners s)"]) (auto simp: holders_def)

lemma refs_Some: "storage s i = Some p \<Longrightarrow> refs s i = count p"
  by (simp add: refs_def)

lemma refs_cong: "storage s' j = storage s j \<Longrightarrow> refs s' j = refs s j"
  by (simp add: refs_def)

lemma refs_dereference:
  "refs (dereference i s) j = (if j = i \<and> storage s i \<noteq> None then refs s i - 1 else refs s j)"
  by (auto simp: refs_def dereference_storage split: option.splits)

lemma registry_inv_constructor: "registry_inv constructor"
  by (simp add: registry_inv_def tags_ok_constructor refs_def holders_def)
     (simp add: constructor_def)

text \<open>An id that some owner holds has an entry.\<close>

lemma held_present:
  assumes "registry_inv s" and "owners s k = Some ow" and "j \<in> set (storageSet ow)"
  shows "\<exists>p. storage s j = Some p \<and> 1 \<le> count p"
proof -
  from assms(2,3) have "k \<in> holders s j" by (auto simp: holders_mem)
  moreover from assms(1) have "finite (holders s j)"
    by (simp add: registry_inv_def finite_holders)
  ultimately have "0 < card (holders s j)" by (auto simp: card_gt_0_iff)
  with assms(1) have "0 < refs s j" by (simp add: registry_inv_def)
  then obtain p where p: "storage s j = Some p" by (auto simp: refs_def split: option.splits)
  with assms(1) show ?thesis by (auto simp: registry_inv_def)
qed

lemma registry_inv_remove:
  assumes inv: "registry_inv s"
    and k: "getOwnerKey (WebContents wc) None = Inr k"
    and ow: "owners s k = Some ow" "contextId ow = cid"
    and mem: "i \<in> set (storageSet ow)"
  shows "registry_inv (exec (Remove wc cid i) s)"
proof -
  let ?ow' = "ow\<lparr> storageSet := set_delete (storageSet ow) i \<rparr>"
  let ?s0 = "s\<lparr> owners := (owners s)(k \<mapsto> ?ow') \<rparr>"
  let ?s' = "dereference i ?s0"
  have ex: "exec (Remove wc cid i) s = ?s'"
    using ow by (simp add: remove_unfold[OF k])
  from held_present[OF inv ow(1) mem] obtain p where p: "storage s i = Some p" "1 \<le> count p"
    by blast
  have own: "owners ?s' = (owners s)(k \<mapsto> ?ow')" by simp
  have fin: "finite (holders s j)" for j
    using inv by (simp add: registry_inv_def finite_holders)
  have kin: "k \<in> holders s j \<longleftrightarrow> j \<in> set (storageSet ow)" for j
    using ow by (simp add: holders_mem)
  have hold: "holders ?s' j = (if j = i then holders s i - {k} else holders s j)" for j
    using holders_owners_upd[OF own, of j] kin[of j] by (auto simp: set_delete_def)
  have card: "int (card (holders ?s' j)) = (if j = i then int (card (holders s i)) - 1
                                            else int (card (holders s j)))" for j
  proof (cases "j = i")
    case True
    have "k \<in> holders s i" using kin mem by simp
    with fin[of i] have "card (holders s i - {k}) = card (holders s i) - 1"
      and "0 < card (holders s i)"
      by (auto simp: card_gt_0_iff)
    with True hold[of j] show ?thesis by simp
  next
    case False
    with hold[of j] show ?thesis by simp
  qed
  have r: "refs ?s' j = (if j = i then refs s i - 1 else refs s j)" for j
    using p by (simp add: refs_dereference) (simp add: refs_def)
  have main: "\<forall>j. refs ?s' j = int (card (holders ?s' j))"
    using inv r card by (simp add: registry_inv_def)
  have pos: "\<forall>j q. storage ?s' j = Some q \<longrightarrow> 1 \<le> count q"
  proof (intro allI impI)
    fix j q assume q: "storage ?s' j = Some q"
    show "1 \<le> count q"
    proof (cases "j = i")
      case True
      with q p show ?thesis by (auto simp: dereference_storage split: if_splits)
    next
      case False
      with q have "storage s j = Some q" by (simp add: dereference_storage)
      with inv show ?thesis by (auto simp: registry_inv_def)
    qed
  qed
  have t: "tags_ok ?s'"
    using tags_ok_exec[of s "Remove wc cid i"] inv ex by (simp add: registry_inv_def)
  have d: "\<forall>k' o'. owners ?s' k' = Some o' \<longrightarrow> distinct (storageSet o')"
    using inv ow by (auto simp: registry_inv_def set_delete_def distinct_removeAll)
  have f: "finite (dom (owners ?s'))" using inv by (simp add: registry_inv_def)
  have c: "contexts ?s' = Map.empty" using inv by (simp add: registry_inv_def)
  show ?thesis
    unfolding ex registry_inv_def using c f d t pos main by blast
qed

lemma registry_inv_clear:
  assumes inv: "registry_inv s"
  shows "registry_inv (clear k cid s)"
proof (cases "\<exists>ow. owners s k = Some ow \<and> contextId ow = cid")
  case False
  then have "clear k cid s = s" by (auto simp: clear_def split: option.splits)
  with inv show ?thesis by simp
next
  case True
  then obtain ow where ow: "owners s k = Some ow" "contextId ow = cid" by blast
  let ?xs = "storageSet ow"
  let ?s1 = "fold dereference ?xs s"
  let ?s' = "clear k cid s"
  have c: "?s' = ?s1\<lparr> owners := (owners ?s1)(k := None), contexts := (contexts ?s1)(cid := None) \<rparr>"
    using ow by (simp add: clear_def Let_def)
  have dist: "distinct ?xs" using inv ow by (auto simp: registry_inv_def)
  have st: "storage ?s' j = (if j \<in> set ?xs then storage (dereference j s) j else storage s j)" for j
    unfolding c using dist by (simp add: fold_dereference_once fold_dereference_other)
  have own: "owners ?s' = (owners s)(k := None)" unfolding c by simp
  have fin: "finite (holders s j)" for j
    using inv by (simp add: registry_inv_def finite_holders)
  have kin: "k \<in> holders s j \<longleftrightarrow> j \<in> set ?xs" for j
    using ow by (simp add: holders_mem)
  have card: "int (card (holders ?s' j)) = (if j \<in> set ?xs then int (card (holders s j)) - 1
                                            else int (card (holders s j)))" for j
  proof (cases "j \<in> set ?xs")
    case True
    with kin have "k \<in> holders s j" by simp
    with fin[of j] have "card (holders s j - {k}) = card (holders s j) - 1"
      and "0 < card (holders s j)"
      by (auto simp: card_gt_0_iff)
    with True holders_owners_del[OF own, of j] show ?thesis by simp
  next
    case False
    with kin have "k \<notin> holders s j" by simp
    with False holders_owners_del[OF own, of j] show ?thesis by simp
  qed
  have r: "refs ?s' j = (if j \<in> set ?xs then refs s j - 1 else refs s j)" for j
  proof (cases "j \<in> set ?xs")
    case True
    from held_present[OF inv ow(1) True] obtain p where p: "storage s j = Some p" by blast
    have "refs ?s' j = refs (dereference j s) j"
      by (rule refs_cong) (simp add: st True)
    with p True show ?thesis by (simp add: refs_dereference)
  next
    case False
    have "refs ?s' j = refs s j" by (rule refs_cong) (simp add: st False)
    with False show ?thesis by simp
  qed
  have main: "\<forall>j. refs ?s' j = int (card (holders ?s' j))"
    using inv r card by (simp add: registry_inv_def)
  have pos: "\<forall>j q. storage ?s' j = Some q \<longrightarrow> 1 \<le> count q"
  proof (intro allI impI)
    fix j q assume q: "storage ?s' j = Some q"
    show "1 \<le> count q"
    proof (cases "j \<in> set ?xs")
      case True
      from held_present[OF inv ow(1) True] obtain p where p: "storage s j = Some p" "1 \<le> count p"
        by blast
      with q True show ?thesis by (auto simp: st dereference_storage split: if_splits)
    next
      case False
      with q have "storage s j = Some q" by (simp add: st)
      with inv show ?thesis by (auto simp: registry_inv_def)
    qed
  qed
  have t: "tags_ok ?s'" using tags_ok_clear[of s k cid] inv by (simp add: registry_inv_def)
  have d: "\<forall>k' o'. owners ?s' k' = Some o' \<longrightarrow> distinct (storageSet o')"
    using inv by (auto simp: own registry_inv_def split: if_splits)
  have f: "finite (dom (owners ?s'))" using inv by (simp add: own registry_inv_def)
  have e: "contexts ?s' = Map.empty" unfolding c using inv by (simp add: registry_inv_def)
  show ?thesis
    unfolding registry_inv_def using e f d t pos main by blast
qed

lemma resolveOwner_plain:
  assumes "contexts s = Map.empty"
  shows "\<exists>s2. resolveOwner wc cid k s =
            (k, \<lparr> contextId = cid,
                  storageSet = (case owners s k of None \<Rightarrow> [] | Some ow \<Rightarrow> storageSet ow) \<rparr>, s2)
          \<and> owners s2 = (owners s)(k \<mapsto> \<lparr> contextId = cid,
                  storageSet = (case owners s k of None \<Rightarrow> [] | Some ow \<Rightarrow> storageSet ow) \<rparr>)
          \<and> contexts s2 = Map.empty"
proof (cases "owners s k")
  case None
  with assms show ?thesis
    by (simp add: resolveOwner_def registerDeleteListener_def registerProcessChangeListener_def
          Let_def)
next
  case (Some ow)
  show ?thesis
  proof (cases "contextId ow = cid")
    case True
    then have e: "\<lparr> contextId = cid, storageSet = storageSet ow \<rparr> = ow" by (cases ow) simp
    from Some have u: "(owners s)(k \<mapsto> ow) = owners s" by (rule map_upd_triv)
    show ?thesis using Some True assms
      by (simp add: resolveOwner_def e u)
  next
    case False
    have e: "\<lparr> contextId = cid, storageSet = storageSet ow \<rparr> = ow\<lparr> contextId := cid \<rparr>"
      by (cases ow) simp
    from Some False assms show ?thesis
      by (simp add: resolveOwner_def registerDeleteListener_def registerProcessChangeListener_def e)
  qed
qed

lemma saveToStorage_other:
  "saveToStorage x s = (i, s1) \<Longrightarrow> j \<noteq> i \<Longrightarrow> storage s1 j = storage s j"
  using saveToStorage_cases[of s x] by auto

lemma refs_saveToStorage:
  assumes "tags_ok s" and "saveToStorage x s = (i, s1)"
  shows "refs s1 j = refs s j"
proof -
  from saveToStorage_cases[of s x] consider
    (old) "s1 = s"
  | (new) "i = nextId s + 1" "storage s1 = (storage s)(i \<mapsto> \<lparr> count = 0, object = x \<rparr>)"
    using assms(2) by auto
  then show ?thesis
  proof cases
    case old
    then show ?thesis by simp
  next
    case new
    have "storage s i = None"
    proof (cases "storage s i")
      case (Some p)
      from tags_ok_storage[OF assms(1) Some] new(1) show ?thesis by simp
    qed simp
    with new(2) show ?thesis by (simp add: refs_def)
  qed
qed

lemma set_set_add: "set (set_add xs i) = insert i (set xs)"
  by (auto simp: set_add_def)

lemma distinct_set_add: "distinct xs \<Longrightarrow> distinct (set_add xs i)"
  by (simp add: set_add_def)

lemma registry_inv_add:
  assumes inv: "registry_inv s"
  shows "registry_inv (snd (add wc cid x s))"
proof -
  let ?s' = "snd (add wc cid x s)"
  obtain i s1 where sv: "saveToStorage x s = (i, s1)" by (cases "saveToStorage x s")
  obtain k where k: "getOwnerKey (WebContents wc) None = Inr k" by simp
  define old where "old = (case owners s k of None \<Rightarrow> [] | Some ow \<Rightarrow> storageSet ow)"
  let ?ow = "\<lparr> contextId = cid, storageSet = old \<rparr>"
  have tg: "tags_ok s" using inv by (simp add: registry_inv_def)
  have c1: "contexts s1 = Map.empty" and o1: "owners s1 = owners s"
    using inv sv saveToStorage_frame[of x s] by (simp_all add: registry_inv_def)
  from resolveOwner_plain[OF c1, of wc cid k] o1 obtain s2 where
    rs: "resolveOwner wc cid k s1 = (k, ?ow, s2)"
    and o2: "owners s2 = (owners s)(k \<mapsto> ?ow)"
    and c2: "contexts s2 = Map.empty"
    by (auto simp: old_def)
  from saveToStorage_present(1)[OF sv tg] obtain p where p1: "storage s1 i = Some p" by blast
  with resolveOwner_frame(2)[OF rs] have p2: "storage s2 i = Some p" by simp
  note au = add_unfold[OF sv k rs]
  have own: "owners ?s' = (owners s)(k \<mapsto> \<lparr> contextId = cid, storageSet = set_add old i \<rparr>)"
    using o2 p2 by (auto simp: au set_add_def)
  have ctx: "contexts ?s' = Map.empty"
    using c2 p2 by (simp add: au)
  have sto: "storage ?s' = (if i \<in> set old then storage s1
                            else (storage s1)(i \<mapsto> p\<lparr> count := count p + 1 \<rparr>))"
    using p2 resolveOwner_frame(2)[OF rs] by (simp add: au)
  have fin: "finite (holders s j)" for j
    using inv by (simp add: registry_inv_def finite_holders)
  have dold: "distinct old"
    using inv by (auto simp: old_def registry_inv_def split: option.splits)
  have kin: "k \<in> holders s j \<longleftrightarrow> j \<in> set old" for j
    by (cases "owners s k") (simp_all add: holders_mem old_def)
  have hold: "holders ?s' j = (if j = i then insert k (holders s i) else holders s j)" for j
    using holders_owners_upd[OF own, of j] kin[of j] by (auto simp: set_set_add)
  have card: "int (card (holders ?s' j)) =
                int (card (holders s j)) + (if j = i \<and> i \<notin> set old then 1 else 0)" for j
  proof (cases "j = i")
    case True
    show ?thesis
    proof (cases "i \<in> set old")
      case m: True
      with kin have "insert k (holders s i) = holders s i" by auto
      with True m hold[of j] show ?thesis by simp
    next
      case m: False
      with kin have "k \<notin> holders s i" by simp
      with fin[of i] have "card (insert k (holders s i)) = card (holders s i) + 1" by simp
      with True m hold[of j] show ?thesis by simp
    qed
  next
    case False
    with hold[of j] show ?thesis by simp
  qed
  have r: "refs ?s' j = refs s j + (if j = i \<and> i \<notin> set old then 1 else 0)" for j
  proof -
    have "refs ?s' j = refs s1 j + (if j = i \<and> i \<notin> set old then 1 else 0)"
      using p1 by (simp add: refs_def sto)
    with refs_saveToStorage[OF tg sv] show ?thesis by simp
  qed
  have main: "\<forall>j. refs ?s' j = int (card (holders ?s' j))"
    using inv r card by (simp add: registry_inv_def)
  have pos: "\<forall>j q. storage ?s' j = Some q \<longrightarrow> 1 \<le> count q"
  proof (intro allI impI)
    fix j q assume q: "storage ?s' j = Some q"
    show "1 \<le> count q"
    proof (cases "j = i")
      case True
      have "count q = refs ?s' i" using q True by (simp add: refs_def)
      also have "\<dots> = int (card (holders ?s' i))" using main by simp
      also have "\<dots> = int (card (insert k (holders s i)))" using hold[of i] by simp
      finally have "count q = int (card (insert k (holders s i)))" .
      moreover have "0 < card (insert k (holders s i))"
        using fin[of i] by (simp add: card_gt_0_iff)
      ultimately show ?thesis by simp
    next
      case False
      with q have "storage s1 j = Some q" by (simp add: sto split: if_splits)
      with saveToStorage_other[OF sv False] have "storage s j = Some q" by simp
      with inv show ?thesis by (auto simp: registry_inv_def)
    qed
  qed
  have t: "tags_ok ?s'" using tags_ok_add[OF tg] .
  have d: "\<forall>k' o'. owners ?s' k' = Some o' \<longrightarrow> distinct (storageSet o')"
    using inv dold by (auto simp: own registry_inv_def distinct_set_add split: if_splits)
  have f: "finite (dom (owners ?s'))" using inv by (simp add: own registry_inv_def)
  show ?thesis
    unfolding registry_inv_def using ctx f d t pos main by blast
qed

lemma registry_inv_run:
  "registry_inv s \<Longrightarrow> disciplined cs s \<Longrightarrow> registry_inv (run cs s)"
proof (induction cs arbitrary: s)
  case Nil
  then show ?case by simp
next
  case (Cons c cs)
  show ?case
  proof (cases c)
    case (Add wc cid x)
    with Cons.prems have "registry_inv (exec c s)" "disciplined cs (exec c s)"
      by (simp_all add: registry_inv_add)
    from Cons.IH[OF this] show ?thesis by simp
  next
    case (Remove wc cid i)
    obtain k where k: "getOwnerKey (WebContents wc) None = Inr k" by simp
    have "registry_inv (exec c s)"
    proof (cases "\<exists>ow. owners s k = Some ow \<and> contextId ow = cid")
      case True
      then obtain ow where ow: "owners s k = Some ow" "contextId ow = cid" by blast
      with Cons.prems(2) Remove k have m: "i \<in> set (storageSet ow) \<or> storage s i = None"
        by simp
      show ?thesis
      proof (cases "i \<in> set (storageSet ow)")
        case held: True
        from registry_inv_remove[OF Cons.prems(1) k ow held] Remove show ?thesis by simp
      next
        case notheld: False
        with m have n: "storage s i = None" by simp
        from notheld have "set_delete (storageSet ow) i = storageSet ow"
          by (simp add: set_delete_def)
        moreover from ow(1) have "(owners s)(k \<mapsto> ow) = owners s" by (rule map_upd_triv)
        ultimately have "remove wc cid i s = Inr s"
          using ow n by (simp add: remove_unfold[OF k] dereference_absent)
        with Remove Cons.prems(1) show ?thesis by simp
      qed
    next
      case False
      then have "remove wc cid i s = Inr s"
        by (auto simp: remove_unfold[OF k] split: option.splits)
      with Remove Cons.prems(1) show ?thesis by simp
    qed
    moreover from Cons.prems(2) Remove have "disciplined cs (exec c s)" by simp
    ultimately show ?thesis using Cons.IH by simp
  next
    case (Clear k cid)
    with Cons.prems have "registry_inv (exec c s)" "disciplined cs (exec c s)"
      by (simp_all add: registry_inv_clear)
    from Cons.IH[OF this] show ?thesis by simp
  next
    case (ViewDeleted wcid pid)
    with Cons.prems(2) show ?thesis by simp
  next
    case (FrameChanged wcid old new)
    with Cons.prems(2) show ?thesis by simp
  qed
qed

text \<open>
  C1, as the code has it. In every state that a sequence of \<open>add\<close>, \<open>remove\<close> and
  \<open>clear\<close> calls reaches from the new registry, the count of each id is the number of
  owner records whose set contains the id (an id without entry in \<open>storage\<close> is in no
  owner's set), provided every \<open>remove\<close> that passes the owner and context check names
  an id of that owner's set or an id that has no entry. The witness run ends with the
  double release of an id already freed.
\<close>

theorem refcount_invariant:
  assumes "disciplined cs constructor"
  shows "refcount_inv (run cs constructor)"
proof -
  let ?s = "run cs constructor"
  from registry_inv_run[OF registry_inv_constructor assms]
  have inv: "registry_inv ?s" .
  then have r: "refs ?s i = int (card (holders ?s i))" and f: "finite (holders ?s i)" for i
    by (simp_all add: registry_inv_def finite_holders)
  show ?thesis
    unfolding refcount_inv_def
  proof
    fix i
    show "case storage ?s i of None \<Rightarrow> holders ?s i = {}
          | Some p \<Rightarrow> count p = int (card (holders ?s i))"
    proof (cases "storage ?s i")
      case None
      then have "refs ?s i = 0" by (simp add: refs_def)
      with r[of i] f[of i] have "holders ?s i = {}" by simp
      with None show ?thesis by simp
    next
      case (Some p)
      with r[of i] refs_Some[OF Some] show ?thesis by simp
    qed
  qed
qed

theorem refcount_invariant_witness:
  "disciplined [Add E1_at_P1 10 100, Add E2_at_P3 20 100, Remove E1_at_P1 10 1,
                Clear ''3-4'' 30, Remove E2_at_P3 20 1, Remove E2_at_P3 20 1] constructor
   \<and> refcount_inv
       (run [Add E1_at_P1 10 100, Add E2_at_P3 20 100, Remove E1_at_P1 10 1,
             Clear ''3-4'' 30, Remove E2_at_P3 20 1, Remove E2_at_P3 20 1] constructor)"
proof -
  have d: "disciplined
      [Add E1_at_P1 10 100, Add E2_at_P3 20 100, Remove E1_at_P1 10 1,
       Clear ''3-4'' 30, Remove E2_at_P3 20 1, Remove E2_at_P3 20 1] constructor"
    by (simp add: registry_defs)
  from refcount_invariant [OF d] d show ?thesis by blast
qed

text \<open>
  C1, as stated, fails: \<open>remove\<close> does not ask whether the owner holds the id. Two
  endpoints register object 100 (id 1, count 2), a third registers object 200 and then
  removes id 1, which it never held: the count of id 1 is 1, and two owner records
  still hold it.
\<close>

theorem refcount_counterexample:
  "storage (run [Add E1_at_P1 10 100, Add E2_at_P3 20 100, Add E3_at_P4 30 200,
                 Remove E3_at_P4 30 1] constructor) 1 = Some \<lparr> count = 1, object = 100 \<rparr>
   \<and> holders (run [Add E1_at_P1 10 100, Add E2_at_P3 20 100, Add E3_at_P4 30 200,
                 Remove E3_at_P4 30 1] constructor) 1 = {''1-1'', ''2-3''}
   \<and> \<not> refcount_inv (run [Add E1_at_P1 10 100, Add E2_at_P3 20 100, Add E3_at_P4 30 200,
                 Remove E3_at_P4 30 1] constructor)"
proof -
  let ?s = "run [Add E1_at_P1 10 100, Add E2_at_P3 20 100, Add E3_at_P4 30 200,
                 Remove E3_at_P4 30 1] constructor"
  have a: "storage ?s 1 = Some \<lparr> count = 1, object = 100 \<rparr>"
    by (simp add: registry_defs)
  have o: "owners ?s = [''1-1'' \<mapsto> \<lparr> contextId = 10, storageSet = [1] \<rparr>,
                        ''2-3'' \<mapsto> \<lparr> contextId = 20, storageSet = [1] \<rparr>,
                        ''3-4'' \<mapsto> \<lparr> contextId = 30, storageSet = [2] \<rparr>]"
    by (simp add: registry_defs) (simp add: numeral_2_eq_2)
  have h: "holders ?s 1 = {''1-1'', ''2-3''}"
    unfolding holders_def o by (auto split: if_splits)
  have c: "card (holders ?s 1) = 2" unfolding h by simp
  have "\<not> refcount_inv ?s"
  proof
    assume "refcount_inv ?s"
    then have "case storage ?s 1 of None \<Rightarrow> holders ?s 1 = {}
               | Some p \<Rightarrow> count p = int (card (holders ?s 1))"
      unfolding refcount_inv_def by (rule spec)
    with a c show False by simp
  qed
  with a h show ?thesis by blast
qed

subsection \<open>Process swaps\<close>

text \<open>
  What the process-change listener writes when it matches and the new process id is
  not 0, and what the swap-confirming branch of \<open>add\<close> leaves in \<open>contexts\<close>, for
  every state.
\<close>

lemma processChangeListener_writes:
  assumes "oldProcessId = l_processId l" and "owners s (l_ownerKey l) = Some ow"
    and "newProcessId \<noteq> 0"
  shows "processChangeListener l oldProcessId newProcessId s =
           Inr (s\<lparr> contexts := (contexts s)(l_contextId l \<mapsto>
                      \<lparr> oldOwnerKey = l_ownerKey l,
                        newOwnerKey = ''undefined-'' @ show_nat newProcessId \<rparr>),
                   renderFrameChanged := removeListener l (renderFrameChanged s) \<rparr>)"
  using assms by (simp add: processChangeListener_def getOwnerKey_def falsy_def)

lemma confirming_add_keeps_entry:
  assumes "getOwnerKey (WebContents wc) None = Inr k"
    and "owners s k = Some ow" and "contextId ow \<noteq> cid"
    and "contexts s (contextId ow) = Some c" and "oldOwnerKey c = k"
  shows "contexts (snd (add wc cid x s)) (contextId ow) = Some c"
proof -
  obtain i s1 where sv: "saveToStorage x s = (i, s1)" by (cases "saveToStorage x s")
  have f: "owners s1 = owners s" "contexts s1 = contexts s"
    using sv saveToStorage_frame[of x s] by simp_all
  obtain k' o' s2 where rs: "resolveOwner wc cid k s1 = (k', o', s2)"
    by (cases "resolveOwner wc cid k s1") auto
  with assms f have "contexts s2 (contextId ow) = Some c"
    by (auto simp: resolveOwner_def registerDeleteListener_def registerProcessChangeListener_def)
  then show ?thesis
    by (simp add: add_unfold[OF sv assms(1) rs] split: option.splits)
qed


text \<open>
  C4, evaluated. Endpoint 1 at process 1 registers object 100 under context 10, then
  the notification of a swap from process 1 to process 2 fires. The listener matches,
  finds the owner record, writes the entry of \<open>contexts\<close> under context 10 with the
  current owner key \<open>1-1\<close> as old key, and unsubscribes. The new key it writes is
  \<open>undefined-2\<close>: \<open>getOwnerKey\<close> receives the number \<open>webContents.id\<close>, whose property
  \<open>id\<close> is undefined. The key of endpoint 1 at process 2 is \<open>1-2\<close>.
\<close>

theorem processChange_key_evaluated:
  "emit_render_frame_changed 1 1 2 (run [Add E1_at_P1 10 100] constructor)
     = (None, run [Add E1_at_P1 10 100, FrameChanged 1 1 2] constructor)
   \<and> contexts (run [Add E1_at_P1 10 100, FrameChanged 1 1 2] constructor) 10
       = Some \<lparr> oldOwnerKey = ''1-1'', newOwnerKey = ''undefined-2'' \<rparr>
   \<and> getOwnerKey (WebContents E1_at_P2) None = Inr ''1-2''
   \<and> renderFrameChanged (run [Add E1_at_P1 10 100] constructor)
       = [\<lparr> l_webContents = 1, l_processId = 1, l_ownerKey = ''1-1'', l_contextId = 10 \<rparr>]
   \<and> renderFrameChanged (run [Add E1_at_P1 10 100, FrameChanged 1 1 2] constructor) = []"
  by (simp add: prod_eq_iff) (simp add: registry_defs)

text \<open>
  C3, evaluated. After the swap notification the endpoint registers under context 11.
  \<open>add\<close> finds the record of context 10 under its owner key and the entry of
  \<open>contexts\<close> whose old key is that owner key, and creates the record with context 11
  under the recorded new key. It then deletes \<open>contexts[owner.contextId]\<close> with
  \<open>owner\<close> already bound to the new record, that is the entry under context 11; the
  entry under context 10, the one it found, is still in \<open>contexts\<close>.
\<close>

theorem confirming_add_evaluated:
  "confirmsSwap E1_at_P1 11 (run [Add E1_at_P1 10 100, FrameChanged 1 1 2] constructor)
   \<and> contexts (run [Add E1_at_P1 10 100, FrameChanged 1 1 2] constructor) 10
       = Some \<lparr> oldOwnerKey = ''1-1'', newOwnerKey = ''undefined-2'' \<rparr>
   \<and> fst (add E1_at_P1 11 100 (run [Add E1_at_P1 10 100, FrameChanged 1 1 2] constructor)) = Inr 1
   \<and> owners (run [Add E1_at_P1 10 100, FrameChanged 1 1 2, Add E1_at_P1 11 100] constructor)
         ''undefined-2'' = Some \<lparr> contextId = 11, storageSet = [1] \<rparr>
   \<and> contexts (run [Add E1_at_P1 10 100, FrameChanged 1 1 2, Add E1_at_P1 11 100] constructor) 10
       = Some \<lparr> oldOwnerKey = ''1-1'', newOwnerKey = ''undefined-2'' \<rparr>"
  by (simp add: registry_defs confirmsSwap_def)

text \<open>
  C2, as stated, fails: in the migration scenario the count of the id is 2 after the
  second \<open>add\<close>, and the record under the old owner key is still there.
\<close>

theorem migration_counterexample:
  "storage (run [Add E1_at_P1 10 100, FrameChanged 1 1 2, Add E1_at_P2 10 100] constructor) 1
     = Some \<lparr> count = 2, object = 100 \<rparr>
   \<and> owners (run [Add E1_at_P1 10 100, FrameChanged 1 1 2, Add E1_at_P2 10 100] constructor) ''1-1''
     = Some \<lparr> contextId = 10, storageSet = [1] \<rparr>"
  by (simp add: registry_defs)

text \<open>
  C2, as the code has it. Endpoint \<open>e\<close> at process \<open>p1\<close> registers object \<open>x\<close> under
  context \<open>c\<close> in a new registry: the id is 1 and its count 1. The notification of a
  swap from \<open>p1\<close> to another process \<open>p2\<close> fires. Then \<open>e\<close> at \<open>p2\<close> registers \<open>x\<close>
  under \<open>c\<close>: no record exists under the owner key of \<open>e\<close> at \<open>p2\<close>, so \<open>add\<close> creates
  one there, returns the id 1, and counts it: \<open>get(1)\<close> returns \<open>x\<close>, the count is 2,
  and both the old and the new owner record hold the id.
\<close>

theorem migration_scenario:
  assumes "p1 \<noteq> p2"
  shows "let e1 = \<lparr> wc_id = e, wc_processId = p1 \<rparr>;
             e2 = \<lparr> wc_id = e, wc_processId = p2 \<rparr>;
             k1 = show_nat e @ ''-'' @ show_nat p1;
             k2 = show_nat e @ ''-'' @ show_nat p2;
             s1 = snd (add e1 c x constructor);
             s2 = snd (emit_render_frame_changed e p1 p2 s1);
             s3 = snd (add e2 c x s2)
         in fst (add e1 c x constructor) = Inr 1
            \<and> storage s1 1 = Some \<lparr> count = 1, object = x \<rparr>
            \<and> getOwnerKey (WebContents e1) None = Inr k1
            \<and> getOwnerKey (WebContents e2) None = Inr k2
            \<and> owners s2 k2 = None
            \<and> fst (add e2 c x s2) = Inr 1
            \<and> get 1 s3 = Some x
            \<and> storage s3 1 = Some \<lparr> count = 2, object = x \<rparr>
            \<and> owners s3 k1 = Some \<lparr> contextId = c, storageSet = [1] \<rparr>
            \<and> owners s3 k2 = Some \<lparr> contextId = c, storageSet = [1] \<rparr>"
  using assms by (cases "p2 = 0") (simp_all add: registry_defs)

theorem migration_scenario_witness:
  "(1::nat) \<noteq> 2
   \<and> get 1 (run [Add E1_at_P1 10 100, FrameChanged 1 1 2, Add E1_at_P2 10 100] constructor) = Some 100
   \<and> owners (run [Add E1_at_P1 10 100, FrameChanged 1 1 2, Add E1_at_P2 10 100] constructor) ''1-2''
       = Some \<lparr> contextId = 10, storageSet = [1] \<rparr>"
proof -
  have h: "(1::nat) \<noteq> 2" by simp
  from migration_scenario [OF h, of 1 10 100] h show ?thesis
    by (simp add: Let_def E1_at_P1_def E1_at_P2_def)
qed

end
